theory Spec2Isabelle
  imports
    Main
    "HOL-Library.Word"
    "HOL-Library.List_Lexorder"
    "HOL-Library.Product_Lexorder"
begin

text \<open>
  The import-and-cache engine of sitemap-fe-cache: the indexed store of page records and
  source metadata, the prefix and fuzzy search over it, the route that fetches one sitemap,
  the freshness manager, and the import run of the worker and of the library, as functions
  on explicit stores and as a step function on the state of a run. The properties proved
  of them follow the definitions.
\<close>

section \<open>Strings and arrays of the platform\<close>

text \<open>
  A JavaScript string is a sequence of 16-bit code units, and IndexedDB orders string keys
  code unit by code unit. A code unit is a \<open>16 word\<close>, a string a list of them,
  ordered lexicographically; the sentinel U+FFFF is the largest code unit.
  ASCII literals are written with \<open>js\<close>. Numbers that count or index (limits, chunk
  sizes, totals, times in milliseconds) are integers.
\<close>

type_synonym jschar = "16 word"
type_synonym jsstring = "jschar list"

definition js :: "string \<Rightarrow> jsstring" where
  "js s = map of_char s"

definition slash :: jschar where
  "slash = 0x2F"

definition sentinel :: jschar where
  "sentinel = 0xFFFF"

text \<open>
  \<open>String.prototype.trim\<close> removes the code units of WhiteSpace and LineTerminator
  from both ends.
\<close>

definition isWhiteSpace :: "jschar \<Rightarrow> bool" where
  "isWhiteSpace c \<longleftrightarrow>
     c \<in> set [0x9, 0xA, 0xB, 0xC, 0xD, 0x20, 0xA0, 0x1680, 0x2028, 0x2029, 0x202F, 0x205F,
               0x3000, 0xFEFF]
     \<or> (0x2000 \<le> c \<and> c \<le> 0x200A)"

definition trim :: "jsstring \<Rightarrow> jsstring" where
  "trim s = rev (dropWhile isWhiteSpace (rev (dropWhile isWhiteSpace s)))"

text \<open>\<open>s.startsWith(p)\<close> and \<open>s.includes(n)\<close>.\<close>

fun startsWith :: "'a list \<Rightarrow> 'a list \<Rightarrow> bool" where
  "startsWith s [] = True"
| "startsWith [] (p # ps) = False"
| "startsWith (c # cs) (p # ps) = (c = p \<and> startsWith cs ps)"

fun includes_js :: "'a list \<Rightarrow> 'a list \<Rightarrow> bool" where
  "includes_js s [] = True"
| "includes_js [] (p # ps) = False"
| "includes_js (c # cs) (p # ps) = (startsWith (c # cs) (p # ps) \<or> includes_js cs (p # ps))"

text \<open>
  \<open>xs.slice(start, end)\<close>: a negative index counts from the end, and both are clamped
  to the array.
\<close>

definition js_slice :: "'a list \<Rightarrow> int \<Rightarrow> int \<Rightarrow> 'a list" where
  "js_slice xs start end =
     (let len = int (length xs);
          k = (if start < 0 then max (len + start) 0 else min start len);
          e = (if end < 0 then max (len + end) 0 else min end len)
      in take (nat (e - k)) (drop (nat k) xs))"

text \<open>
  \<open>a || b\<close> on an optional string: an absent or empty string is falsy, and the
  expression then has the value of \<open>b\<close>.
\<close>

definition orElse :: "jsstring option \<Rightarrow> jsstring \<Rightarrow> jsstring" where
  "orElse a b = (case a of None \<Rightarrow> b | Some s \<Rightarrow> if s = [] then b else s)"

text \<open>
  Two functions of the platform are parameters of the model.
  \<open>toLowerCase :: jsstring \<Rightarrow> jsstring\<close> is \<open>String.prototype.toLowerCase\<close>, and
  \<open>parseURL :: jsstring \<Rightarrow> jsstring option\<close> is \<open>new URL(loc).pathname\<close>, with
  \<open>None\<close> where the constructor throws. \<open>asciiLower\<close> is the lowercase mapping on
  the ASCII letters, where the platform's mapping agrees with it.
\<close>

definition asciiLower :: "jsstring \<Rightarrow> jsstring" where
  "asciiLower s = map (\<lambda>c. if 0x41 \<le> c \<and> c \<le> 0x5A then c + 0x20 else c) s"

definition noURL :: "jsstring \<Rightarrow> jsstring option" where
  "noURL loc = None"

section \<open>The indexed store (src/lib/import-types.ts, the module imported as lib/idb)\<close>

text \<open>
  A stored page. \<open>path\<close> and \<open>path_lc\<close> are absent on records written before the
  fields existed, and a caller may pass them on the records it hands to the bulk upsert.
\<close>

record PageRecord =
  loc :: jsstring
  sourceUrl :: jsstring
  lastmod :: "jsstring option"
  path :: "jsstring option"
  path_lc :: "jsstring option"

record SourceMeta =
  url :: jsstring
  lastFetched :: int
  expiresAt :: int
  total :: int

text \<open>
  The object store \<open>pages\<close> has key path \<open>loc\<close>: \<open>store.put\<close> replaces the record
  with the same \<open>loc\<close>. The store \<open>sources\<close> has key path \<open>url\<close>.
\<close>

definition store_put :: "PageRecord \<Rightarrow> PageRecord list \<Rightarrow> PageRecord list" where
  "store_put r ps = r # filter (\<lambda>x. loc x \<noteq> loc r) ps"

definition pathFromLoc :: "(jsstring \<Rightarrow> jsstring option) \<Rightarrow> jsstring \<Rightarrow> jsstring" where
  "pathFromLoc parseURL l =
     (case parseURL l of
        Some pathname \<Rightarrow> if pathname = [] then [slash] else pathname
      | None \<Rightarrow> if startsWith l [slash] then l else slash # l)"

text \<open>The loop body of one write transaction: \<open>for (const r of chunk) store.put(...)\<close>.\<close>

definition stamp ::
  "(jsstring \<Rightarrow> jsstring) \<Rightarrow> (jsstring \<Rightarrow> jsstring option) \<Rightarrow> jsstring \<Rightarrow> PageRecord \<Rightarrow> PageRecord"
where
  "stamp toLowerCase parseURL src r =
     (let p = pathFromLoc parseURL (loc r); p_lc = toLowerCase p
      in r\<lparr>sourceUrl := src, path := Some p, path_lc := Some p_lc\<rparr>)"

fun writeChunk ::
  "(jsstring \<Rightarrow> jsstring) \<Rightarrow> (jsstring \<Rightarrow> jsstring option) \<Rightarrow> jsstring \<Rightarrow> PageRecord list
     \<Rightarrow> PageRecord list \<Rightarrow> PageRecord list"
where
  "writeChunk toLowerCase parseURL src [] ps = ps"
| "writeChunk toLowerCase parseURL src (r # rs) ps =
     writeChunk toLowerCase parseURL src rs (store_put (stamp toLowerCase parseURL src r) ps)"

text \<open>
  \<open>putPagesBulk\<close>: \<open>for (let i = 0; i < records.length; i += chunkSize)\<close>. With
  \<open>chunkSize \<le> 0\<close> the loop does not end, so it runs on fuel: \<open>putLoop\<close> gives the
  index and the store after at most \<open>fuel\<close> iterations, and \<open>putPagesBulk\<close> is
  \<open>None\<close> when the loop has not left by then.
\<close>

fun putLoop ::
  "(jsstring \<Rightarrow> jsstring) \<Rightarrow> (jsstring \<Rightarrow> jsstring option) \<Rightarrow> jsstring \<Rightarrow> PageRecord list
     \<Rightarrow> int \<Rightarrow> nat \<Rightarrow> int \<times> PageRecord list \<Rightarrow> int \<times> PageRecord list"
where
  "putLoop toLowerCase parseURL src records chunkSize 0 (i, ps) = (i, ps)"
| "putLoop toLowerCase parseURL src records chunkSize (Suc fuel) (i, ps) =
     (if i < int (length records)
      then putLoop toLowerCase parseURL src records chunkSize fuel
             (i + chunkSize,
              writeChunk toLowerCase parseURL src (js_slice records i (i + chunkSize)) ps)
      else (i, ps))"

definition putPagesBulk ::
  "(jsstring \<Rightarrow> jsstring) \<Rightarrow> (jsstring \<Rightarrow> jsstring option) \<Rightarrow> nat \<Rightarrow> jsstring
     \<Rightarrow> PageRecord list \<Rightarrow> int \<Rightarrow> PageRecord list \<Rightarrow> PageRecord list option"
where
  "putPagesBulk toLowerCase parseURL fuel src records chunkSize ps =
     (case putLoop toLowerCase parseURL src records chunkSize fuel (0, ps) of
        (i, ps') \<Rightarrow> if i < int (length records) then None else Some ps')"

text \<open>\<open>countBySource\<close>: the number of entries of the index \<open>by_source\<close> under the key.\<close>

definition countBySource :: "PageRecord list \<Rightarrow> jsstring \<Rightarrow> int" where
  "countBySource ps src = int (length (filter (\<lambda>r. sourceUrl r = src) ps))"

text \<open>
  The index \<open>by_path_lc\<close> holds the records that have a \<open>path_lc\<close>, ordered by that
  key and then by the primary key \<open>loc\<close>.
\<close>

definition index_key :: "PageRecord \<Rightarrow> jsstring" where
  "index_key r = (case path_lc r of Some k \<Rightarrow> k | None \<Rightarrow> [])"

definition by_path_lc :: "PageRecord list \<Rightarrow> PageRecord list" where
  "by_path_lc ps = sort_key (\<lambda>r. (index_key r, loc r)) (filter (\<lambda>r. path_lc r \<noteq> None) ps)"

section \<open>Search (src/lib/import-types.ts, the module imported as lib/idb)\<close>

fun collapse :: "jsstring \<Rightarrow> jsstring" where
  "collapse (a # b # cs) =
     (if a = slash \<and> b = slash then collapse (b # cs) else a # collapse (b # cs))"
| "collapse cs = cs"

definition normPrefix :: "jsstring \<Rightarrow> jsstring" where
  "normPrefix raw =
     (let trimmed = trim raw
      in if trimmed = [] then [slash]
         else let lead = (if startsWith trimmed [slash] then trimmed else slash # trimmed)
              in collapse lead)"

text \<open>
  The cursor callback of \<open>searchByPathPrefixLC\<close>: push the record, then resolve when
  \<open>out.length >= limit\<close>, else continue; resolve when the cursor is exhausted.
\<close>

fun cursorCollect :: "PageRecord list \<Rightarrow> int \<Rightarrow> PageRecord list \<Rightarrow> PageRecord list" where
  "cursorCollect [] limit out = out"
| "cursorCollect (r # rs) limit out =
     (let out' = out @ [r]
      in if int (length out') \<ge> limit then out' else cursorCollect rs limit out')"

definition inRange :: "jsstring \<Rightarrow> jsstring \<Rightarrow> PageRecord \<Rightarrow> bool" where
  "inRange lower upper r \<longleftrightarrow> lower \<le> index_key r \<and> index_key r \<le> upper"

definition searchByPathPrefixLC ::
  "(jsstring \<Rightarrow> jsstring) \<Rightarrow> PageRecord list \<Rightarrow> jsstring \<Rightarrow> int \<Rightarrow> PageRecord list"
where
  "searchByPathPrefixLC toLowerCase ps prefix limit =
     (let norm = toLowerCase (normPrefix prefix);
          upper = norm @ [sentinel]
      in cursorCollect (filter (inRange norm upper) (by_path_lc ps)) limit [])"

text \<open>
  The cursor callback of \<open>searchBySubstringLC\<close>, with the number of entries visited
  returned beside the result.
\<close>

definition plc_of :: "(jsstring \<Rightarrow> jsstring) \<Rightarrow> PageRecord \<Rightarrow> jsstring" where
  "plc_of toLowerCase r = toLowerCase (orElse (path_lc r) (orElse (path r) []))"

fun substrScan ::
  "(jsstring \<Rightarrow> jsstring) \<Rightarrow> jsstring \<Rightarrow> int \<Rightarrow> int \<Rightarrow> PageRecord list
     \<Rightarrow> PageRecord list \<Rightarrow> int \<Rightarrow> PageRecord list \<times> int"
where
  "substrScan toLowerCase needle limit visitCap [] out visited = (out, visited)"
| "substrScan toLowerCase needle limit visitCap (r # rs) out visited =
     (let visited' = visited + 1
      in if includes_js (plc_of toLowerCase r) needle
         then (let out' = out @ [r]
               in if int (length out') \<ge> limit then (out', visited')
                  else if visited' \<ge> visitCap then (out', visited')
                  else substrScan toLowerCase needle limit visitCap rs out' visited')
         else if visited' \<ge> visitCap then (out, visited')
         else substrScan toLowerCase needle limit visitCap rs out visited')"

definition searchBySubstringLC ::
  "(jsstring \<Rightarrow> jsstring) \<Rightarrow> PageRecord list \<Rightarrow> jsstring \<Rightarrow> int \<Rightarrow> int \<Rightarrow> PageRecord list"
where
  "searchBySubstringLC toLowerCase ps substr limit visitCap =
     (let needle = toLowerCase (trim substr)
      in if needle = [] then []
         else fst (substrScan toLowerCase needle limit visitCap (by_path_lc ps) [] 0))"

definition searchFuzzy ::
  "(jsstring \<Rightarrow> jsstring) \<Rightarrow> PageRecord list \<Rightarrow> jsstring \<Rightarrow> int \<Rightarrow> PageRecord list"
where
  "searchFuzzy toLowerCase ps raw limit =
     (let q = trim raw
      in if q = [] then []
         else let prefixResults = searchByPathPrefixLC toLowerCase ps q limit
              in if int (length prefixResults) \<ge> limit then prefixResults
                 else let fallback =
                            searchBySubstringLC toLowerCase ps q
                              (limit - int (length prefixResults)) 800
                      in js_slice (prefixResults @ fallback) 0 limit)"

section \<open>The single-call fetch route (src/app/api/sitemap/route.ts)\<close>

record UrlEntry =
  entry_loc :: jsstring
  entry_lastmod :: "jsstring option"

text \<open>
  The loop of \<open>POST\<close> over the extracted entries: an entry whose \<open>loc\<close> is not in
  \<open>seen\<close> is added and pushed, and the loop breaks once \<open>urls.length >= 500\<close>.
\<close>

fun dedupeCap :: "UrlEntry list \<Rightarrow> jsstring set \<Rightarrow> UrlEntry list \<Rightarrow> UrlEntry list" where
  "dedupeCap [] seen urls = urls"
| "dedupeCap (e # es) seen urls =
     (let seen' = (if entry_loc e \<notin> seen then insert (entry_loc e) seen else seen);
          urls' = (if entry_loc e \<notin> seen then urls @ [e] else urls)
      in if length urls' \<ge> 500 then urls' else dedupeCap es seen' urls')"

definition POST_urls :: "UrlEntry list \<Rightarrow> UrlEntry list" where
  "POST_urls entries = dedupeCap entries {} []"

text \<open>
  In the words of the specification: the entries deduplicated by \<open>loc\<close>, the first
  occurrence kept, in document order.
\<close>

fun firstByLoc :: "UrlEntry list \<Rightarrow> UrlEntry list" where
  "firstByLoc [] = []"
| "firstByLoc (e # es) = e # firstByLoc (filter (\<lambda>x. entry_loc x \<noteq> entry_loc e) es)"

section \<open>The freshness manager (src/workers/import-worker.ts, the module imported as lib/sitemap-cache)\<close>

record DB =
  pages :: "PageRecord list"
  sources :: "SourceMeta list"

definition getSource :: "SourceMeta list \<Rightarrow> jsstring \<Rightarrow> SourceMeta option" where
  "getSource ms u = find (\<lambda>m. url m = u) ms"

definition upsertSource :: "SourceMeta \<Rightarrow> SourceMeta list \<Rightarrow> SourceMeta list" where
  "upsertSource meta ms = meta # filter (\<lambda>m. url m \<noteq> url meta) ms"

text \<open>
  \<open>getSampleBySource\<close>: a cursor over the index \<open>by_source\<close> at one key, whose
  entries are ordered by the primary key; it skips \<open>offset\<close> entries, pushes, and
  resolves when \<open>out.length >= limit\<close>.
\<close>

fun sampleCursor ::
  "PageRecord list \<Rightarrow> int \<Rightarrow> int \<Rightarrow> PageRecord list \<Rightarrow> int \<Rightarrow> PageRecord list"
where
  "sampleCursor [] limit offset out skipped = out"
| "sampleCursor (r # rs) limit offset out skipped =
     (if skipped < offset then sampleCursor rs limit offset out (skipped + 1)
      else let out' = out @ [r]
           in if int (length out') \<ge> limit then out'
              else sampleCursor rs limit offset out' skipped)"

definition getSampleBySource :: "PageRecord list \<Rightarrow> jsstring \<Rightarrow> int \<Rightarrow> int \<Rightarrow> PageRecord list" where
  "getSampleBySource ps src limit offset =
     sampleCursor (sort_key loc (filter (\<lambda>r. sourceUrl r = src) ps)) limit offset [] 0"

record ImportResult =
  sample :: "PageRecord list"
  result_total :: int
  meta :: SourceMeta

definition toRecords :: "jsstring \<Rightarrow> UrlEntry list \<Rightarrow> PageRecord list" where
  "toRecords src urls =
     map (\<lambda>u. \<lparr>loc = entry_loc u, sourceUrl = src, lastmod = entry_lastmod u,
                path = None, path_lc = None\<rparr>) urls"

text \<open>
  \<open>importAndCache\<close>. The response of \<open>/api/sitemap\<close> is \<open>Inl\<close> of the message when
  the request fails or is not ok, and the two readings of \<open>Date.now()\<close> are \<open>t1\<close>
  and \<open>t2\<close>. A rejection leaves the store as it is. The transactions of the store are
  taken to succeed.
\<close>

definition importAndCache ::
  "(jsstring \<Rightarrow> jsstring) \<Rightarrow> (jsstring \<Rightarrow> jsstring option) \<Rightarrow> (jsstring + UrlEntry list)
     \<Rightarrow> int \<Rightarrow> int \<Rightarrow> jsstring \<Rightarrow> int \<Rightarrow> int \<Rightarrow> DB \<Rightarrow> (jsstring + ImportResult) option \<times> DB"
where
  "importAndCache toLowerCase parseURL response t1 t2 u ttlMs sampleSize db =
     (case response of
        Inl msg \<Rightarrow> (Some (Inl msg), db)
      | Inr list \<Rightarrow>
          let entries = toRecords u list
          in case putPagesBulk toLowerCase parseURL (length entries) u entries 2000 (pages db) of
               None \<Rightarrow> (None, db)
             | Some ps \<Rightarrow>
                 let n = countBySource ps u;
                     m = \<lparr>url = u, lastFetched = t1, expiresAt = t2 + ttlMs, total = n\<rparr>;
                     db' = db\<lparr>pages := ps, sources := upsertSource m (sources db)\<rparr>;
                     smp = getSampleBySource ps u sampleSize 0
                 in (Some (Inr \<lparr>sample = smp, result_total = n, meta = m\<rparr>), db'))"

text \<open>
  \<open>refreshIfExpired\<close>. \<open>now\<close> is the reading of \<open>Date.now()\<close> in the comparison.
  \<open>settled\<close> is how the promise of the call itself settles, \<open>triggered\<close> whether the
  import was started in the background, \<open>background\<close> how that import settles
  (\<open>None\<close> when there is none, or when it never settles), \<open>updated\<close> the calls of
  \<open>onUpdated\<close>, which is optional, and \<open>after\<close> the store once the background
  import has settled.
\<close>

record RefreshOutcome =
  settled :: "jsstring + unit"
  triggered :: bool
  background :: "(jsstring + ImportResult) option"
  updated :: "ImportResult list"
  after :: DB

definition refreshIfExpired ::
  "(jsstring \<Rightarrow> jsstring) \<Rightarrow> (jsstring \<Rightarrow> jsstring option) \<Rightarrow> int \<Rightarrow> (jsstring + UrlEntry list)
     \<Rightarrow> int \<Rightarrow> int \<Rightarrow> jsstring \<Rightarrow> bool \<Rightarrow> int \<Rightarrow> DB \<Rightarrow> RefreshOutcome"
where
  "refreshIfExpired toLowerCase parseURL now response t1 t2 u onUpdated ttlMs db =
     (case getSource (sources db) u of
        None \<Rightarrow>
          \<lparr>settled = Inr (), triggered = False, background = None, updated = [], after = db\<rparr>
      | Some m \<Rightarrow>
          if now > expiresAt m
          then (case importAndCache toLowerCase parseURL response t1 t2 u ttlMs 200 db of
                  (Some (Inr r), db') \<Rightarrow>
                    \<lparr>settled = Inr (), triggered = True, background = Some (Inr r),
                     updated = (if onUpdated then [r] else []), after = db'\<rparr>
                | (Some (Inl e), db') \<Rightarrow>
                    \<lparr>settled = Inr (), triggered = True, background = Some (Inl e),
                     updated = [], after = db'\<rparr>
                | (None, db') \<Rightarrow>
                    \<lparr>settled = Inr (), triggered = True, background = None,
                     updated = [], after = db'\<rparr>)
          else \<lparr>settled = Inr (), triggered = False, background = None, updated = [],
                 after = db\<rparr>)"

section \<open>The import run (src/workers/import-worker.ts and src/lib/import-types.ts)\<close>

text \<open>
  The worker's \<open>run\<close> and the library's \<open>importLargeSitemapIndex\<close> are the same
  procedure but for what they emit; \<open>variant\<close> tells them apart, and the callbacks of the
  library are recorded as the messages of the worker.
\<close>

datatype variant = Worker | Library

record ImportProgress =
  totalSitemaps :: int
  processedSitemaps :: int
  urlsImported :: int
  startedAt :: int

datatype WorkerToMain =
    Start ImportProgress
  | Progress ImportProgress
  | Batch "UrlEntry list"
  | Complete int
  | Error jsstring

record ImportOptions =
  groupSize :: "int option"
  concurrency :: "int option"
  ttlMs :: "int option"
  samplePerBatch :: "int option"

text \<open>\<open>{ ...DEFAULTS, ...options }\<close>\<close>

definition optGroupSize :: "ImportOptions \<Rightarrow> int" where
  "optGroupSize opts = (case groupSize opts of None \<Rightarrow> 20 | Some v \<Rightarrow> v)"

definition optConcurrency :: "ImportOptions \<Rightarrow> int" where
  "optConcurrency opts = (case concurrency opts of None \<Rightarrow> 4 | Some v \<Rightarrow> v)"

definition optTtlMs :: "ImportOptions \<Rightarrow> int" where
  "optTtlMs opts = (case ttlMs opts of None \<Rightarrow> 1000 * 60 * 60 * 6 | Some v \<Rightarrow> v)"

definition optSamplePerBatch :: "ImportOptions \<Rightarrow> int" where
  "optSamplePerBatch opts = (case samplePerBatch opts of None \<Rightarrow> 50 | Some v \<Rightarrow> v)"

text \<open>
  \<open>chunk\<close>: \<open>for (let i = 0; i < arr.length; i += size) out.push(arr.slice(i, i + size))\<close>.
  With \<open>size \<le> 0\<close> and a non-empty array the loop does not end; it runs on fuel, and
  \<open>None\<close> is the loop that has not left after \<open>length arr\<close> iterations.
\<close>

fun chunkLoop :: "'a list \<Rightarrow> int \<Rightarrow> nat \<Rightarrow> int \<Rightarrow> 'a list list \<Rightarrow> 'a list list option" where
  "chunkLoop arr sz 0 i out = (if i < int (length arr) then None else Some out)"
| "chunkLoop arr sz (Suc fuel) i out =
     (if i < int (length arr)
      then chunkLoop arr sz fuel (i + sz) (out @ [js_slice arr i (i + sz)])
      else Some out)"

definition chunk :: "'a list \<Rightarrow> int \<Rightarrow> 'a list list option" where
  "chunk arr sz = chunkLoop arr sz (length arr) 0 []"

text \<open>
  The response of the analysis route: a urlset, or an index with its child locations and
  its \<open>count\<close>.
\<close>

datatype info = Urlset | Index "jsstring list" "int option"

text \<open>
  The run is suspended at an \<open>await\<close> between two steps, and so is each worker of the
  pool. \<open>Fetching i a\<close> is a worker awaiting the response for group \<open>i\<close>, with
  \<open>a\<close> set once the request has been aborted; \<open>Writing i urls\<close> awaits
  \<open>putPagesBulk\<close>; \<open>Stopped\<close> has returned and \<open>Threw\<close> has rejected.
\<close>

datatype task = Fetching nat bool | Writing nat "UrlEntry list" | Stopped | Threw

datatype phase =
    Analyzing bool
  | DirectFetching bool
  | DirectWriting "UrlEntry list"
  | DirectCounting "UrlEntry list"
  | DirectUpserting "UrlEntry list" SourceMeta
  | Pool
  | Counting
  | Upserting SourceMeta
  | Hung
  | Finished

record run_state = DB +
  cancelled :: bool
  phase :: phase
  workers :: "task list"
  next_idx :: nat
  groups :: "jsstring list list"
  progress :: ImportProgress
  posted :: "WorkerToMain list"

record config =
  cfg_variant :: variant
  cfg_toLowerCase :: "jsstring \<Rightarrow> jsstring"
  cfg_parseURL :: "jsstring \<Rightarrow> jsstring option"
  cfg_url :: jsstring
  cfg_options :: ImportOptions

text \<open>
  What resumes the run: the cancel message, and the settling of the promise awaited by the
  run or by worker \<open>k\<close>. A response is \<open>Inl\<close> of the message when the request fails.
  \<open>AnalyzeDone\<close> and \<open>Counted\<close> carry the readings of \<open>Date.now()\<close> taken in the
  code that follows them.
\<close>

datatype env =
    Cancel
  | AnalyzeDone "jsstring + info" int
  | UrlsDone nat "jsstring + UrlEntry list"
  | PagesWritten nat
  | SitemapDone "jsstring + UrlEntry list"
  | DirectWritten
  | Counted int int
  | SourceWritten

text \<open>
  The message of the rejection of an aborted request is the platform's; the name of the
  exception stands for it.
\<close>

definition abortError :: jsstring where
  "abortError = js ''AbortError''"

definition outcome :: "bool \<Rightarrow> jsstring + 'a \<Rightarrow> jsstring + 'a" where
  "outcome aborted r = (if aborted then Inl abortError else r)"

text \<open>
  The \<open>catch\<close> of the run. The worker posts the error whatever the flag; the library
  calls \<open>onError\<close> only when the run is not cancelled.
\<close>

definition fail :: "config \<Rightarrow> jsstring \<Rightarrow> run_state \<Rightarrow> run_state" where
  "fail cfg msg s =
     (case cfg_variant cfg of
        Worker \<Rightarrow>
          s\<lparr>posted := posted s @ [Error (if msg = [] then js ''Unknown error'' else msg)],
            phase := Finished\<rparr>
      | Library \<Rightarrow>
          if cancelled s then s\<lparr>phase := Finished\<rparr>
          else s\<lparr>posted := posted s @ [Error msg], phase := Finished\<rparr>)"

text \<open>
  One turn of \<open>while (!cancelled) { const idx = next++; if (idx >= groups.length) break;
  await processGroup(...) }\<close> up to the \<open>await\<close> of the request in \<open>processGroup\<close>.
\<close>

definition claim :: "run_state \<Rightarrow> task \<times> run_state" where
  "claim s =
     (if cancelled s then (Stopped, s)
      else let idx = next_idx s; s' = s\<lparr>next_idx := idx + 1\<rparr>
           in if idx \<ge> length (groups s) then (Stopped, s') else (Fetching idx False, s'))"

fun spawn :: "nat \<Rightarrow> run_state \<Rightarrow> run_state" where
  "spawn 0 s = s"
| "spawn (Suc n) s = (case claim s of (t, s') \<Rightarrow> spawn n (s'\<lparr>workers := workers s' @ [t]\<rparr>))"

text \<open>
  After \<open>await Promise.all(workers)\<close>: \<open>if (cancelled) return\<close>, else the count is
  requested.
\<close>

definition settle :: "run_state \<Rightarrow> run_state" where
  "settle s =
     (if phase s = Pool \<and> list_all (\<lambda>t. t = Stopped) (workers s)
      then (if cancelled s then s\<lparr>phase := Finished\<rparr> else s\<lparr>phase := Counting\<rparr>)
      else s)"

definition mkMeta :: "config \<Rightarrow> int \<Rightarrow> int \<Rightarrow> int \<Rightarrow> SourceMeta" where
  "mkMeta cfg t1 t2 n =
     \<lparr>url = cfg_url cfg, lastFetched = t1, expiresAt = t2 + optTtlMs (cfg_options cfg),
      total = n\<rparr>"

definition writePages :: "config \<Rightarrow> UrlEntry list \<Rightarrow> PageRecord list \<Rightarrow> PageRecord list option" where
  "writePages cfg urls ps =
     putPagesBulk (cfg_toLowerCase cfg) (cfg_parseURL cfg) (length urls) (cfg_url cfg)
       (toRecords (cfg_url cfg) urls) 1000 ps"

definition abort_phase :: "phase \<Rightarrow> phase" where
  "abort_phase p =
     (case p of Analyzing a \<Rightarrow> Analyzing True | DirectFetching a \<Rightarrow> DirectFetching True | _ \<Rightarrow> p)"

definition abort_task :: "task \<Rightarrow> task" where
  "abort_task t = (case t of Fetching i a \<Rightarrow> Fetching i True | _ \<Rightarrow> t)"

text \<open>
  One step runs the code from the resumption to the next \<open>await\<close>, as the single
  thread does. An event that finds the run, or the worker it names, awaiting something
  else leaves the state as it is. A cancel message sets the flag and aborts the requests
  in flight. The writes of one \<open>putPagesBulk\<close> take effect when it resolves. After a
  rejection has ended the run, the workers of the pool that are still suspended go on.
\<close>

fun step :: "config \<Rightarrow> env \<Rightarrow> run_state \<Rightarrow> run_state" where
  "step cfg Cancel s =
     s\<lparr>cancelled := True, phase := abort_phase (phase s), workers := map abort_task (workers s)\<rparr>"
| "step cfg (AnalyzeDone r t) s =
     (case phase s of
        Analyzing aborted \<Rightarrow>
          (case outcome aborted r of
             Inl msg \<Rightarrow> fail cfg msg s
           | Inr Urlset \<Rightarrow>
               (case cfg_variant cfg of
                  Worker \<Rightarrow>
                    s\<lparr>posted := posted s @
                         [Start \<lparr>totalSitemaps = 1, processedSitemaps = 0, urlsImported = 0,
                                 startedAt = t\<rparr>],
                      phase := DirectFetching False\<rparr>
                | Library \<Rightarrow> s\<lparr>phase := DirectFetching False\<rparr>)
           | Inr (Index sitemaps count) \<Rightarrow>
               (case chunk sitemaps (optGroupSize (cfg_options cfg)) of
                  None \<Rightarrow> s\<lparr>phase := Hung\<rparr>
                | Some gs \<Rightarrow>
                    let p = \<lparr>totalSitemaps =
                               (case count of None \<Rightarrow> int (length sitemaps) | Some c \<Rightarrow> c),
                             processedSitemaps = 0, urlsImported = 0, startedAt = t\<rparr>;
                        s1 = s\<lparr>groups := gs, progress := p, next_idx := 0, workers := [],
                               phase := Pool,
                               posted := posted s @
                                 (case cfg_variant cfg of
                                    Worker \<Rightarrow> [Start p]
                                  | Library \<Rightarrow> [Start p, Progress p])\<rparr>
                    in settle
                         (spawn (nat (min (optConcurrency (cfg_options cfg)) (int (length gs))))
                            s1)))
      | _ \<Rightarrow> s)"
| "step cfg (UrlsDone k r) s =
     (if k < length (workers s)
      then (case workers s ! k of
              Fetching idx aborted \<Rightarrow>
                (case outcome aborted r of
                   Inl msg \<Rightarrow>
                     let s1 = s\<lparr>workers := (workers s)[k := Threw]\<rparr>
                     in if phase s1 = Pool then fail cfg msg s1 else s1
                 | Inr urls \<Rightarrow> s\<lparr>workers := (workers s)[k := Writing idx urls]\<rparr>)
            | _ \<Rightarrow> s)
      else s)"
| "step cfg (PagesWritten k) s =
     (if k < length (workers s)
      then (case workers s ! k of
              Writing idx urls \<Rightarrow>
                (case writePages cfg urls (pages s) of
                   None \<Rightarrow> s
                 | Some ps \<Rightarrow>
                     let p = (progress s)
                               \<lparr>urlsImported := urlsImported (progress s) + int (length urls),
                                processedSitemaps :=
                                  processedSitemaps (progress s)
                                    + int (length (groups s ! idx))\<rparr>;
                         s1 = s\<lparr>pages := ps, progress := p,
                                posted := posted s @
                                  [Batch (js_slice urls 0 (optSamplePerBatch (cfg_options cfg))),
                                   Progress p]\<rparr>
                     in (case claim s1 of
                           (t, s2) \<Rightarrow> settle (s2\<lparr>workers := (workers s2)[k := t]\<rparr>)))
            | _ \<Rightarrow> s)
      else s)"
| "step cfg (SitemapDone r) s =
     (case phase s of
        DirectFetching aborted \<Rightarrow>
          (case outcome aborted r of
             Inl msg \<Rightarrow> fail cfg msg s
           | Inr urls \<Rightarrow> s\<lparr>phase := DirectWriting urls\<rparr>)
      | _ \<Rightarrow> s)"
| "step cfg DirectWritten s =
     (case phase s of
        DirectWriting urls \<Rightarrow>
          (case writePages cfg urls (pages s) of
             None \<Rightarrow> s
           | Some ps \<Rightarrow> s\<lparr>pages := ps, phase := DirectCounting urls\<rparr>)
      | _ \<Rightarrow> s)"
| "step cfg (Counted t1 t2) s =
     (case phase s of
        DirectCounting urls \<Rightarrow>
          s\<lparr>phase := DirectUpserting urls
                        (mkMeta cfg t1 t2 (countBySource (pages s) (cfg_url cfg)))\<rparr>
      | Counting \<Rightarrow>
          s\<lparr>phase := Upserting (mkMeta cfg t1 t2 (countBySource (pages s) (cfg_url cfg)))\<rparr>
      | _ \<Rightarrow> s)"
| "step cfg SourceWritten s =
     (case phase s of
        DirectUpserting urls m \<Rightarrow>
          s\<lparr>sources := upsertSource m (sources s),
            posted := posted s @ [Batch (js_slice urls 0 50), Complete (total m)],
            phase := Finished\<rparr>
      | Upserting m \<Rightarrow>
          s\<lparr>sources := upsertSource m (sources s),
            posted := posted s @ [Complete (total m)],
            phase := Finished\<rparr>
      | _ \<Rightarrow> s)"

text \<open>
  \<open>run(payload)\<close> clears the flag and awaits the analysis; \<open>exec\<close> then takes the
  steps of a schedule.
\<close>

definition start :: "DB \<Rightarrow> run_state" where
  "start db =
     \<lparr>pages = pages db, sources = sources db, cancelled = False, phase = Analyzing False,
      workers = [], next_idx = 0, groups = [],
      progress = \<lparr>totalSitemaps = 0, processedSitemaps = 0, urlsImported = 0, startedAt = 0\<rparr>,
      posted = []\<rparr>"

definition exec :: "config \<Rightarrow> env list \<Rightarrow> run_state \<Rightarrow> run_state" where
  "exec cfg evs s = foldl (\<lambda>s e. step cfg e s) s evs"

section \<open>Predicates on the store and on the run\<close>

text \<open>
  A stored record is \<open>stamped\<close> when it carries the source and both derived fields as
  the bulk upsert writes them; a set of locations is \<open>covered\<close> by a store that holds a
  stamped record for each.
\<close>

definition stamped ::
  "(jsstring \<Rightarrow> jsstring) \<Rightarrow> (jsstring \<Rightarrow> jsstring option) \<Rightarrow> jsstring \<Rightarrow> PageRecord \<Rightarrow> bool"
where
  "stamped toLowerCase parseURL src s \<longleftrightarrow>
     sourceUrl s = src \<and> path s = Some (pathFromLoc parseURL (loc s))
     \<and> path_lc s = Some (toLowerCase (pathFromLoc parseURL (loc s)))"

definition covered ::
  "(jsstring \<Rightarrow> jsstring) \<Rightarrow> (jsstring \<Rightarrow> jsstring option) \<Rightarrow> jsstring \<Rightarrow> jsstring set
     \<Rightarrow> PageRecord list \<Rightarrow> bool"
where
  "covered lc up src L ps \<longleftrightarrow> (\<forall>l\<in>L. \<exists>s\<in>set ps. loc s = l \<and> stamped lc up src s)"

text \<open>
  The progress messages among the messages posted, in the order posted, and the order on
  progress snapshots that compares \<open>processedSitemaps\<close> and \<open>urlsImported\<close>.
  \<open>inv6\<close> holds in every state of a run: the progress messages posted so far are
  ordered and are below the counters of the state, and while the analysis is awaited
  nothing is posted and the counters are 0.
\<close>

fun progressOf :: "WorkerToMain \<Rightarrow> ImportProgress list" where
  "progressOf (Progress p) = [p]"
| "progressOf _ = []"

definition progress_events :: "WorkerToMain list \<Rightarrow> ImportProgress list" where
  "progress_events ms = concat (map progressOf ms)"

definition leP :: "ImportProgress \<Rightarrow> ImportProgress \<Rightarrow> bool" where
  "leP p q \<longleftrightarrow> processedSitemaps p \<le> processedSitemaps q \<and> urlsImported p \<le> urlsImported q"

definition inv6 :: "run_state \<Rightarrow> bool" where
  "inv6 s \<longleftrightarrow>
     sorted_wrt leP (progress_events (posted s))
     \<and> list_all (\<lambda>p. leP p (progress s)) (progress_events (posted s))
     \<and> ((case phase s of Analyzing a \<Rightarrow> True | _ \<Rightarrow> False)
          \<longrightarrow> posted s = [] \<and> workers s = []
              \<and> processedSitemaps (progress s) = 0 \<and> urlsImported (progress s) = 0)"








text \<open>The \<open>error\<close> messages among the messages posted.\<close>

fun isError :: "WorkerToMain \<Rightarrow> bool" where
  "isError (Error m) = True"
| "isError _ = False"




section \<open>Example data\<close>

text \<open>
  The stores of the scenarios of the specification, a run over two groups that return a
  common location, a direct urlset run, a document of 501 distinct locations, and a store
  whose metadata expired at time 100.
\<close>

definition page :: "string \<Rightarrow> PageRecord" where
  "page l = \<lparr>loc = js l, sourceUrl = js ''https://example.com/sitemap.xml'', lastmod = None,
     path = Some (js l), path_lc = Some (asciiLower (js l))\<rparr>"

definition scenarioC :: "PageRecord list" where
  "scenarioC = [page ''/products/a'', page ''/product'', page ''/about'']"

definition scenarioD :: "PageRecord list" where
  "scenarioD = scenarioC @ [page ''/about-production'']"

definition suppliedRecords :: "PageRecord list" where
  "suppliedRecords =
     [\<lparr>loc = js ''/products/a'', sourceUrl = [], lastmod = None, path = None, path_lc = None\<rparr>,
      \<lparr>loc = js ''/product'', sourceUrl = js ''other'', lastmod = None,
        path = Some (js ''/wrong''), path_lc = Some (js ''/WRONG'')\<rparr>,
      \<lparr>loc = js ''/about'', sourceUrl = [], lastmod = None, path = None, path_lc = None\<rparr>]"

definition exampleUrl :: jsstring where
  "exampleUrl = js ''https://example.com/sitemap.xml''"

definition exampleConfig :: "variant \<Rightarrow> int option \<Rightarrow> int option \<Rightarrow> config" where
  "exampleConfig v gs ttl =
     \<lparr>cfg_variant = v, cfg_toLowerCase = asciiLower, cfg_parseURL = noURL, cfg_url = exampleUrl,
      cfg_options = \<lparr>groupSize = gs, concurrency = None, ttlMs = ttl, samplePerBatch = None\<rparr>\<rparr>"

definition emptyDB :: DB where
  "emptyDB = \<lparr>pages = [], sources = []\<rparr>"

definition entry :: "string \<Rightarrow> UrlEntry" where
  "entry l = \<lparr>entry_loc = js l, entry_lastmod = None\<rparr>"

definition zeroProgress :: "int \<Rightarrow> int \<Rightarrow> ImportProgress" where
  "zeroProgress n t = \<lparr>totalSitemaps = n, processedSitemaps = 0, urlsImported = 0, startedAt = t\<rparr>"

definition twoGroups :: "env list" where
  "twoGroups =
     [AnalyzeDone (Inr (Index [js ''a.xml'', js ''b.xml''] (Some 2))) 5,
      UrlsDone 1 (Inr [entry ''/b'']),
      UrlsDone 0 (Inr [entry ''/a'', entry ''/b'']),
      PagesWritten 0, PagesWritten 1, Counted 7 7, SourceWritten]"


definition manyEntries :: "UrlEntry list" where
  "manyEntries = map (\<lambda>i. \<lparr>entry_loc = [of_nat i], entry_lastmod = None\<rparr>) [0..<501]"

definition staleDB :: DB where
  "staleDB = \<lparr>pages = [],
     sources = [\<lparr>url = exampleUrl, lastFetched = 0, expiresAt = 100, total = 0\<rparr>]\<rparr>"

section \<open>Properties of the store and of search\<close>

lemma cursorCollect_take:
  "cursorCollect rs limit out =
     (if rs = [] then out else out @ take (nat (max 1 (limit - int (length out)))) rs)"
proof (induction rs arbitrary: out)
  case Nil
  show ?case by simp
next
  case (Cons r rs)
  show ?case
  proof (cases "int (length out) + 1 \<ge> limit")
    case True
    then have "nat (max 1 (limit - int (length out))) = 1" by simp
    with True show ?thesis by (simp add: Let_def)
  next
    case False
    then have k: "nat (max 1 (limit - int (length out))) = Suc (nat (max 1 (limit - int (length out) - 1)))"
      by simp
    from False show ?thesis
      unfolding cursorCollect.simps Let_def
      apply (simp only: Cons.IH k)
      apply (simp add: algebra_simps)
      done
  qed
qed

lemma searchByPathPrefixLC_take:
  "searchByPathPrefixLC lc ps prefix limit =
     take (nat (max 1 limit))
       (filter (inRange (lc (normPrefix prefix)) (lc (normPrefix prefix) @ [sentinel]))
          (by_path_lc ps))"
  by (simp add: searchByPathPrefixLC_def Let_def cursorCollect_take)

lemma take_max1_Cons:
  "take (nat (max 1 k)) (x # xs) = x # (if k \<le> 1 then [] else take (nat (max 1 (k - 1))) xs)"
proof (cases "k \<le> 1")
  case True
  then have "nat (max 1 k) = Suc 0" by simp
  with True show ?thesis by simp
next
  case False
  then have "nat (max 1 k) = Suc (nat (max 1 (k - 1)))" by simp
  with False show ?thesis by (simp only: take_Suc_Cons if_False)
qed

lemma take_nat_Cons:
  "1 \<le> k \<Longrightarrow> take (nat k) (x # xs) = x # take (nat (k - 1)) xs"
proof -
  assume "1 \<le> k"
  then have "nat k = Suc (nat (k - 1))" by simp
  then show ?thesis by (simp only: take_Suc_Cons)
qed

lemma substrScan_fst:
  "fst (substrScan lc needle limit visitCap rs out visited) =
     out @ take (nat (max 1 (limit - int (length out))))
             (filter (\<lambda>r. includes_js (plc_of lc r) needle)
                (take (nat (max 1 (visitCap - visited))) rs))"
proof (induction rs arbitrary: out visited)
  case Nil
  show ?case by simp
next
  case (Cons r rs)
  have a: "visitCap - (visited + 1) = visitCap - visited - 1" by simp
  have b: "limit - int (length (out @ [r])) = limit - int (length out) - 1" by simp
  show ?case
    unfolding substrScan.simps Let_def take_max1_Cons
    by (auto simp: Cons.IH max_def take_nat_Cons algebra_simps)
qed

lemma substrScan_snd:
  "visited < visitCap \<Longrightarrow> snd (substrScan lc needle limit visitCap rs out visited) \<le> visitCap"
  by (induction rs arbitrary: out visited) (auto simp: Let_def)

lemma dropWhile_rev_dropWhile_Nil:
  "dropWhile P (rev (dropWhile P s)) = [] \<longleftrightarrow> dropWhile P s = []"
proof
  assume a: "dropWhile P (rev (dropWhile P s)) = []"
  show "dropWhile P s = []"
  proof (rule ccontr)
    assume n: "dropWhile P s \<noteq> []"
    then have "\<not> P (hd (dropWhile P s))" by (simp add: hd_dropWhile)
    moreover have "hd (dropWhile P s) \<in> set (rev (dropWhile P s))" using n by simp
    ultimately show False using a set_dropWhileD dropWhile_eq_Nil_conv by metis
  qed
next
  assume "dropWhile P s = []"
  then show "dropWhile P (rev (dropWhile P s)) = []" by (simp del: dropWhile_eq_Nil_conv)
qed

lemma trim_Nil_iff: "trim s = [] \<longleftrightarrow> (\<forall>c\<in>set s. isWhiteSpace c)"
proof -
  have "trim s = [] \<longleftrightarrow> dropWhile isWhiteSpace s = []"
    unfolding trim_def rev_is_Nil_conv by (rule dropWhile_rev_dropWhile_Nil)
  then show ?thesis by simp
qed

lemma last_dropWhile: "dropWhile P xs \<noteq> [] \<Longrightarrow> last (dropWhile P xs) = last xs"
  by (induction xs) (auto split: if_splits)

lemma trim_ends:
  assumes "trim s \<noteq> []"
  shows "\<not> isWhiteSpace (hd (trim s))" and "\<not> isWhiteSpace (last (trim s))"
proof -
  let ?u = "dropWhile isWhiteSpace s"
  let ?v = "dropWhile isWhiteSpace (rev ?u)"
  from assms have v: "?v \<noteq> []" by (simp add: trim_def)
  then have u: "?u \<noteq> []"
    using dropWhile_rev_dropWhile_Nil[of isWhiteSpace s] by blast
  have "hd (trim s) = last ?v" using v by (simp add: trim_def hd_rev)
  also have "\<dots> = last (rev ?u)" using v by (rule last_dropWhile)
  also have "\<dots> = hd ?u" using u by (simp add: last_rev)
  finally show "\<not> isWhiteSpace (hd (trim s))" using u by (simp add: hd_dropWhile)
  have "last (trim s) = hd ?v" using v by (simp add: trim_def last_rev)
  then show "\<not> isWhiteSpace (last (trim s))" using v by (simp add: hd_dropWhile)
qed

lemma dropWhile_hd_id: "xs \<noteq> [] \<Longrightarrow> \<not> P (hd xs) \<Longrightarrow> dropWhile P xs = xs"
  by (cases xs) auto

lemma trim_idem: "trim (trim s) = trim s"
proof (cases "trim s = []")
  case True
  have "trim [] = []" by (simp add: trim_def)
  with True show ?thesis by simp
next
  case False
  let ?t = "trim s"
  have a: "dropWhile isWhiteSpace ?t = ?t"
    using False trim_ends(1)[OF False] by (rule dropWhile_hd_id)
  have "rev ?t \<noteq> []" using False by simp
  moreover have "\<not> isWhiteSpace (hd (rev ?t))"
    using False trim_ends(2)[OF False] by (simp add: hd_rev)
  ultimately have b: "dropWhile isWhiteSpace (rev ?t) = rev ?t" by (rule dropWhile_hd_id)
  have "trim ?t = rev (dropWhile isWhiteSpace (rev (dropWhile isWhiteSpace ?t)))"
    by (simp only: trim_def[of "trim s"])
  also have "\<dots> = ?t" by (simp only: a b rev_rev_ident)
  finally show ?thesis .
qed

lemma normPrefix_trim: "normPrefix (trim s) = normPrefix s"
  by (simp add: normPrefix_def trim_idem)

lemma searchByPathPrefixLC_trim:
  "searchByPathPrefixLC lc ps (trim s) limit = searchByPathPrefixLC lc ps s limit"
  by (simp add: searchByPathPrefixLC_def normPrefix_trim)

lemma searchBySubstringLC_trim:
  "searchBySubstringLC lc ps (trim s) limit cap = searchBySubstringLC lc ps s limit cap"
  by (simp add: searchBySubstringLC_def trim_idem)

lemma js_slice_0: "0 \<le> n \<Longrightarrow> js_slice xs 0 n = take (nat n) xs"
  by (auto simp: js_slice_def Let_def min_def)

lemma loc_stamp: "loc (stamp lc up src r) = loc r"
  by (simp add: stamp_def Let_def)


lemma stamped_stamp: "stamped lc up src (stamp lc up src r)"
  by (simp add: stamped_def stamp_def Let_def)

lemma set_store_put: "set (store_put r ps) = insert r {x \<in> set ps. loc x \<noteq> loc r}"
  by (auto simp: store_put_def)

lemma writeChunk_safe:
  "s \<in> set (writeChunk lc up src rs ps) \<Longrightarrow> s \<in> set ps \<or> stamped lc up src s"
proof (induction rs arbitrary: ps)
  case Nil
  then show ?case by simp
next
  case (Cons r rs)
  from Cons.prems have "s \<in> set (writeChunk lc up src rs (store_put (stamp lc up src r) ps))"
    by simp
  then have "s \<in> set (store_put (stamp lc up src r) ps) \<or> stamped lc up src s"
    by (rule Cons.IH)
  then show ?case by (auto simp: set_store_put stamped_stamp)
qed

lemma putLoop_safe:
  "s \<in> set (snd (putLoop lc up src records chunkSize fuel (i, ps)))
     \<Longrightarrow> s \<in> set ps \<or> stamped lc up src s"
proof (induction fuel arbitrary: i ps)
  case 0
  then show ?case by simp
next
  case (Suc fuel)
  show ?case
  proof (cases "i < int (length records)")
    case True
    with Suc.prems have
      "s \<in> set (snd (putLoop lc up src records chunkSize fuel
          (i + chunkSize, writeChunk lc up src (js_slice records i (i + chunkSize)) ps)))"
      by simp
    then have "s \<in> set (writeChunk lc up src (js_slice records i (i + chunkSize)) ps)
        \<or> stamped lc up src s"
      by (rule Suc.IH)
    then show ?thesis using writeChunk_safe by blast
  next
    case False
    with Suc.prems show ?thesis by simp
  qed
qed

lemma store_put_covered:
  assumes "covered lc up src L ps"
  shows "covered lc up src (insert (loc r) L) (store_put (stamp lc up src r) ps)"
  unfolding covered_def
proof
  fix l assume l: "l \<in> insert (loc r) L"
  show "\<exists>s\<in>set (store_put (stamp lc up src r) ps). loc s = l \<and> stamped lc up src s"
  proof (cases "l = loc r")
    case True
    then show ?thesis
      by (intro bexI[of _ "stamp lc up src r"]) (simp_all add: loc_stamp stamped_stamp set_store_put)
  next
    case False
    with l have "l \<in> L" by simp
    with assms obtain s where "s \<in> set ps" "loc s = l" "stamped lc up src s"
      unfolding covered_def by blast
    with False show ?thesis
      by (intro bexI[of _ s]) (simp_all add: set_store_put loc_stamp)
  qed
qed

lemma writeChunk_covered:
  "covered lc up src L ps \<Longrightarrow> covered lc up src (L \<union> loc ` set rs) (writeChunk lc up src rs ps)"
proof (induction rs arbitrary: L ps)
  case Nil
  then show ?case by simp
next
  case (Cons r rs)
  from Cons.prems have "covered lc up src (insert (loc r) L) (store_put (stamp lc up src r) ps)"
    by (rule store_put_covered)
  then have "covered lc up src (insert (loc r) L \<union> loc ` set rs)
      (writeChunk lc up src rs (store_put (stamp lc up src r) ps))"
    by (rule Cons.IH)
  then show ?case by simp
qed

lemma take_js_slice:
  assumes "0 \<le> i" "i < int (length xs)" "1 \<le> c"
  shows "take (nat i) xs @ js_slice xs i (i + c) = take (nat (i + c)) xs"
proof -
  let ?e = "min (i + c) (int (length xs))"
  have s: "js_slice xs i (i + c) = take (nat (?e - i)) (drop (nat i) xs)"
    using assms by (simp add: js_slice_def Let_def min_def)
  have "take (nat i) xs @ take (nat (?e - i)) (drop (nat i) xs) = take (nat i + nat (?e - i)) xs"
    by (simp add: take_add)
  also have "nat i + nat (?e - i) = nat ?e" using assms by (auto simp: min_def nat_add_distrib)
  also have "take (nat ?e) xs = take (nat (i + c)) xs"
    by (simp add: min_def)
  finally show ?thesis using s by simp
qed

lemma putLoop_complete:
  assumes "1 \<le> chunkSize"
  shows "0 \<le> i \<Longrightarrow> int (length records) - i \<le> int fuel
     \<Longrightarrow> covered lc up src (loc ` set (take (nat i) records)) ps
     \<Longrightarrow> int (length records) \<le> fst (putLoop lc up src records chunkSize fuel (i, ps))
         \<and> covered lc up src (loc ` set records)
              (snd (putLoop lc up src records chunkSize fuel (i, ps)))"
proof (induction fuel arbitrary: i ps)
  case 0
  then show ?case by simp
next
  case (Suc fuel)
  show ?case
  proof (cases "i < int (length records)")
    case True
    let ?ch = "js_slice records i (i + chunkSize)"
    have "covered lc up src (loc ` set (take (nat i) records) \<union> loc ` set ?ch)
        (writeChunk lc up src ?ch ps)"
      using Suc.prems(3) by (rule writeChunk_covered)
    moreover have "loc ` set (take (nat i) records) \<union> loc ` set ?ch
        = loc ` set (take (nat (i + chunkSize)) records)"
      using take_js_slice[OF Suc.prems(1) True assms] by (metis image_Un set_append)
    ultimately have c: "covered lc up src (loc ` set (take (nat (i + chunkSize)) records))
        (writeChunk lc up src ?ch ps)" by simp
    have "0 \<le> i + chunkSize" using Suc.prems(1) assms by simp
    moreover have "int (length records) - (i + chunkSize) \<le> int fuel"
      using Suc.prems(2) assms by simp
    ultimately show ?thesis using Suc.IH[OF _ _ c] True by simp
  next
    case False
    with Suc.prems show ?thesis by simp
  qed
qed

text \<open>
  Claim C2. Whatever the caller supplies in the fields of a record, and whatever the chunk
  size, a record in the store after any number of iterations of the bulk upsert is either a
  record that was there before or carries the path derived from its \<open>loc\<close> and the
  lowercase of that path. With a chunk size of at least 1 the call returns, and every record
  handed to it is then stored under its \<open>loc\<close> with both derived fields. The derived
  path is the path component of the parsed URL, \<open>/\<close> when that is empty, and, when
  parsing fails, \<open>loc\<close> itself, prefixed with \<open>/\<close> unless it starts with one.
\<close>

theorem putPagesBulk_derived:
  "(\<forall>s\<in>set (snd (putLoop toLowerCase parseURL src records chunkSize fuel (0, ps))).
      s \<in> set ps
      \<or> (path s = Some (pathFromLoc parseURL (loc s))
         \<and> path_lc s = Some (toLowerCase (pathFromLoc parseURL (loc s)))))
   \<and> (1 \<le> chunkSize \<and> length records \<le> fuel \<longrightarrow>
        (\<exists>ps'. putPagesBulk toLowerCase parseURL fuel src records chunkSize ps = Some ps'
           \<and> (\<forall>r\<in>set records. \<exists>s\<in>set ps'. loc s = loc r
                 \<and> path s = Some (pathFromLoc parseURL (loc r))
                 \<and> path_lc s = Some (toLowerCase (pathFromLoc parseURL (loc r))))))
   \<and> pathFromLoc parseURL l =
        (case parseURL l of
           Some pathname \<Rightarrow> if pathname = [] then js ''/'' else pathname
         | None \<Rightarrow> if startsWith l (js ''/'') then l else js ''/'' @ l)"
proof (intro conjI ballI impI)
  fix s
  assume "s \<in> set (snd (putLoop toLowerCase parseURL src records chunkSize fuel (0, ps)))"
  then have "s \<in> set ps \<or> stamped toLowerCase parseURL src s" by (rule putLoop_safe)
  then show "s \<in> set ps
      \<or> (path s = Some (pathFromLoc parseURL (loc s))
         \<and> path_lc s = Some (toLowerCase (pathFromLoc parseURL (loc s))))"
    by (auto simp: stamped_def)
next
  assume a: "1 \<le> chunkSize \<and> length records \<le> fuel"
  let ?res = "putLoop toLowerCase parseURL src records chunkSize fuel (0, ps)"
  have "covered toLowerCase parseURL src (loc ` set (take (nat 0) records)) ps"
    by (simp add: covered_def)
  with a have c: "int (length records) \<le> fst ?res
      \<and> covered toLowerCase parseURL src (loc ` set records) (snd ?res)"
    by (intro putLoop_complete) simp_all
  then have "putPagesBulk toLowerCase parseURL fuel src records chunkSize ps = Some (snd ?res)"
    by (cases ?res) (simp add: putPagesBulk_def)
  moreover have "\<forall>r\<in>set records. \<exists>s\<in>set (snd ?res). loc s = loc r
                 \<and> path s = Some (pathFromLoc parseURL (loc r))
                 \<and> path_lc s = Some (toLowerCase (pathFromLoc parseURL (loc r)))"
    using c unfolding covered_def stamped_def by fastforce
  ultimately show "\<exists>ps'. putPagesBulk toLowerCase parseURL fuel src records chunkSize ps = Some ps'
           \<and> (\<forall>r\<in>set records. \<exists>s\<in>set ps'. loc s = loc r
                 \<and> path s = Some (pathFromLoc parseURL (loc r))
                 \<and> path_lc s = Some (toLowerCase (pathFromLoc parseURL (loc r))))"
    by blast
next
  show "pathFromLoc parseURL l =
        (case parseURL l of
           Some pathname \<Rightarrow> if pathname = [] then js ''/'' else pathname
         | None \<Rightarrow> if startsWith l (js ''/'') then l else js ''/'' @ l)"
    by (simp add: pathFromLoc_def js_def slash_def split: option.splits)
qed

lemma searchFuzzy_cases:
  assumes "trim raw \<noteq> []"
  shows "searchFuzzy lc ps raw limit =
     (if limit \<le> int (length (searchByPathPrefixLC lc ps raw limit))
      then searchByPathPrefixLC lc ps raw limit
      else searchByPathPrefixLC lc ps raw limit
           @ searchBySubstringLC lc ps raw
               (limit - int (length (searchByPathPrefixLC lc ps raw limit))) 800)"
proof -
  let ?P = "searchByPathPrefixLC lc ps raw limit"
  let ?F = "searchBySubstringLC lc ps raw (limit - int (length ?P)) 800"
  have F: "length ?F \<le> nat (max 1 (limit - int (length ?P)))"
    by (simp add: searchBySubstringLC_def Let_def substrScan_fst)
  show ?thesis
  proof (cases "limit \<le> int (length ?P)")
    case True
    with assms show ?thesis
      by (simp add: searchFuzzy_def Let_def searchByPathPrefixLC_trim)
  next
    case False
    then have "0 \<le> limit" by simp
    moreover from False F have "length (?P @ ?F) \<le> nat limit" by simp
    ultimately have "js_slice (?P @ ?F) 0 limit = ?P @ ?F"
      by (simp only: js_slice_0 take_all)
    with assms False show ?thesis
      by (simp add: searchFuzzy_def Let_def searchByPathPrefixLC_trim searchBySubstringLC_trim)
  qed
qed

lemma searchBySubstringLC_take:
  "searchBySubstringLC lc ps raw limit visitCap =
     (if lc (trim raw) = [] then []
      else take (nat (max 1 limit))
             (filter (\<lambda>r. includes_js (plc_of lc r) (lc (trim raw)))
                (take (nat (max 1 visitCap)) (by_path_lc ps))))"
  by (simp add: searchBySubstringLC_def Let_def substrScan_fst)

lemma searchFuzzy_length:
  assumes "1 \<le> limit"
  shows "length (searchFuzzy lc ps raw limit) \<le> nat limit"
proof (cases "trim raw = []")
  case True
  then show ?thesis by (simp add: searchFuzzy_def)
next
  case False
  let ?P = "searchByPathPrefixLC lc ps raw limit"
  have P: "length ?P \<le> nat limit"
    using assms by (simp add: searchByPathPrefixLC_take)
  show ?thesis
  proof (cases "limit \<le> int (length ?P)")
    case True
    with False P show ?thesis by (simp add: searchFuzzy_cases)
  next
    case F2: False
    then have k: "nat (max 1 (limit - int (length ?P))) = nat limit - length ?P" by simp
    have "length (searchBySubstringLC lc ps raw (limit - int (length ?P)) 800)
        \<le> nat (max 1 (limit - int (length ?P)))"
      unfolding searchBySubstringLC_take by simp
    then have "length (searchBySubstringLC lc ps raw (limit - int (length ?P)) 800)
        \<le> nat limit - length ?P"
      by (simp only: k)
    with False F2 show ?thesis by (simp add: searchFuzzy_cases)
  qed
qed

lemma collapse_Cons: "\<exists>ys. collapse (x # xs) = x # ys"
  by (induction xs arbitrary: x) auto

lemma collapse_no_double: "\<not> includes_js (collapse s) [slash, slash]"
proof (induction s rule: collapse.induct)
  case (1 a b cs)
  obtain ys where ys: "collapse (b # cs) = b # ys" using collapse_Cons by blast
  with 1 show ?case by (cases "a = slash \<and> b = slash") auto
qed simp_all

lemma collapse_hd: "startsWith s [slash] \<Longrightarrow> startsWith (collapse s) [slash]"
  by (induction s rule: collapse.induct) auto

lemma normPrefix_collapse:
  "normPrefix raw =
     collapse (if startsWith (trim raw) [slash] then trim raw else slash # trim raw)"
  by (simp add: normPrefix_def Let_def)

lemma normPrefix_rooted: "startsWith (normPrefix raw) [slash]"
  unfolding normPrefix_collapse by (rule collapse_hd) simp

lemma word16_le_sentinel: "(c :: jschar) \<le> sentinel"
proof -
  have m: "sentinel = (- 1 :: jschar)" by (simp add: sentinel_def)
  show ?thesis unfolding m by (rule word_order.extremum)
qed

lemma rooted_inRange:
  assumes "path_lc r = Some (slash # k)" "sentinel \<notin> set k"
  shows "inRange [slash] [slash, sentinel] r"
proof -
  have "k \<le> [sentinel]"
  proof (cases k)
    case Nil
    then show ?thesis by simp
  next
    case (Cons c k')
    with assms(2) have "c \<noteq> sentinel" by auto
    with word16_le_sentinel[of c] have "c < sentinel" by simp
    with Cons show ?thesis by simp
  qed
  with assms(1) show ?thesis by (simp add: inRange_def index_key_def)
qed

lemma set_by_path_lc: "set (by_path_lc ps) = {r \<in> set ps. path_lc r \<noteq> None}"
  by (simp add: by_path_lc_def)

text \<open>
  Claim C4 says that the prefix search returns at most \<open>limit\<close> records of the range.
  The search normalises its input (trim, one leading slash, runs of slashes collapsed),
  lowercases it, and returns in index order the first records of the inclusive key range
  from the normalised prefix to that prefix followed by the sentinel; but it returns
  \<open>max 1 limit\<close> of them at most, not \<open>limit\<close>: the cursor pushes a record
  before it compares the length with the limit. On the stored paths \<open>/products/a\<close>,
  \<open>/product\<close>, \<open>/about\<close> the search for \<open>/prod\<close> with limit 10 returns
  \<open>/product\<close> and \<open>/products/a\<close>, and with limit 0 it returns one record.
\<close>

theorem searchByPathPrefixLC_range:
  "searchByPathPrefixLC toLowerCase ps prefix limit =
     take (nat (max 1 limit))
       (filter (inRange (toLowerCase (normPrefix prefix))
                  (toLowerCase (normPrefix prefix) @ [sentinel]))
          (by_path_lc ps))
   \<and> normPrefix prefix =
       collapse (if startsWith (trim prefix) (js ''/'') then trim prefix else js ''/'' @ trim prefix)
   \<and> startsWith (normPrefix prefix) (js ''/'')
   \<and> \<not> includes_js (normPrefix prefix) (js ''//'')
   \<and> searchByPathPrefixLC asciiLower scenarioC (js ''/prod'') 10
       = [page ''/product'', page ''/products/a'']
   \<and> searchByPathPrefixLC asciiLower scenarioC (js ''/prod'') 0 = [page ''/product'']"
proof (intro conjI)
  show "searchByPathPrefixLC toLowerCase ps prefix limit =
     take (nat (max 1 limit))
       (filter (inRange (toLowerCase (normPrefix prefix))
                  (toLowerCase (normPrefix prefix) @ [sentinel]))
          (by_path_lc ps))"
    by (rule searchByPathPrefixLC_take)
  have j1: "js ''/'' = [slash]" by (simp add: js_def slash_def)
  have j2: "js ''//'' = [slash, slash]" by (simp add: js_def slash_def)
  show "normPrefix prefix =
       collapse (if startsWith (trim prefix) (js ''/'') then trim prefix else js ''/'' @ trim prefix)"
    unfolding j1 by (simp add: normPrefix_collapse)
  show "startsWith (normPrefix prefix) (js ''/'')"
    unfolding j1 by (rule normPrefix_rooted)
  show "\<not> includes_js (normPrefix prefix) (js ''//'')"
    unfolding j2 normPrefix_collapse by (rule collapse_no_double)
  show "searchByPathPrefixLC asciiLower scenarioC (js ''/prod'') 10
       = [page ''/product'', page ''/products/a'']"
    by code_simp
  show "searchByPathPrefixLC asciiLower scenarioC (js ''/prod'') 0 = [page ''/product'']"
    by code_simp
qed

text \<open>
  Claim C9. For a query of whitespace only, the empty string included, \<open>searchFuzzy\<close>
  returns the empty list for every store and every limit. The prefix normalisation maps the
  same input to \<open>/\<close>, so the prefix search itself, on a store whose lowercase paths
  all start with a slash (and hold no sentinel code unit), returns the first \<open>limit\<close>
  records of the whole index, for a limit of at least 1.
\<close>

theorem searchFuzzy_blank:
  assumes "\<forall>c\<in>set raw. isWhiteSpace c"
  shows "searchFuzzy toLowerCase ps raw limit = []
    \<and> normPrefix raw = js ''/''
    \<and> (toLowerCase (js ''/'') = js ''/'' \<and> 1 \<le> limit
         \<and> (\<forall>r\<in>set ps. \<exists>k. path_lc r = Some (js ''/'' @ k) \<and> sentinel \<notin> set k)
       \<longrightarrow> searchByPathPrefixLC toLowerCase ps raw limit = take (nat limit) (by_path_lc ps)
           \<and> length (by_path_lc ps) = length ps)"
proof (intro conjI impI)
  from assms have t: "trim raw = []" by (simp add: trim_Nil_iff)
  have j1: "js ''/'' = [slash]" by (simp add: js_def slash_def)
  from t show "searchFuzzy toLowerCase ps raw limit = []" by (simp add: searchFuzzy_def)
  from t show n: "normPrefix raw = js ''/''" by (simp add: normPrefix_def j1)
  assume a: "toLowerCase (js ''/'') = js ''/'' \<and> 1 \<le> limit
         \<and> (\<forall>r\<in>set ps. \<exists>k. path_lc r = Some (js ''/'' @ k) \<and> sentinel \<notin> set k)"
  then have all: "\<forall>r\<in>set ps. inRange [slash] [slash, sentinel] r"
    unfolding j1 using rooted_inRange by fastforce
  have "filter (inRange [slash] [slash, sentinel]) (by_path_lc ps) = by_path_lc ps"
    using all by (simp add: set_by_path_lc)
  with a n show "searchByPathPrefixLC toLowerCase ps raw limit = take (nat limit) (by_path_lc ps)"
    by (simp add: searchByPathPrefixLC_take j1)
  from a have "filter (\<lambda>r. path_lc r \<noteq> None) ps = ps"
    by (auto intro!: filter_True)
  then show "length (by_path_lc ps) = length ps"
    by (simp add: by_path_lc_def)
qed

text \<open>
  On the store of scenario C the query of two spaces finds nothing with \<open>searchFuzzy\<close>,
  and all three records with the prefix search.
\<close>

theorem searchFuzzy_blank_witness:
  "searchFuzzy asciiLower scenarioC (js ''  '') 10 = []
   \<and> normPrefix (js ''  '') = js ''/''
   \<and> searchByPathPrefixLC asciiLower scenarioC (js ''  '') 10 = take 10 (by_path_lc scenarioC)
   \<and> length (by_path_lc scenarioC) = 3"
proof -
  have h: "\<forall>c\<in>set (js ''  ''). isWhiteSpace c" by code_simp
  have l: "asciiLower (js ''/'') = js ''/''" by code_simp
  have r: "\<forall>r\<in>set scenarioC. \<exists>k. path_lc r = Some (js ''/'' @ k) \<and> sentinel \<notin> set k"
    by (simp add: scenarioC_def page_def js_def asciiLower_def sentinel_def)
  have n: "length scenarioC = 3" by (simp add: scenarioC_def)
  from searchFuzzy_blank[OF h, of asciiLower scenarioC 10] l r n show ?thesis by simp
qed

text \<open>
  Claim C3, amended to queries that are not blank. \<open>searchFuzzy\<close> runs the prefix
  search; when that yields at least \<open>limit\<close> records they are the result; otherwise
  the result is the prefix results followed by the records of the substring scan, which
  visits at most the first 800 entries of the lowercase-path index and keeps, in index order,
  at most \<open>limit\<close> minus the number of prefix results of those whose lowercased path
  contains the lowercased query. For a limit of at least 1 the result has at most
  \<open>limit\<close> records. The two parts are not deduplicated: on a store holding only
  \<open>/product\<close>, the query \<open>prod\<close> returns that record twice.
\<close>

theorem searchFuzzy_prefix_then_substring:
  assumes "trim raw \<noteq> []"
  shows "(let P = searchByPathPrefixLC toLowerCase ps raw limit;
              F = searchBySubstringLC toLowerCase ps raw (limit - int (length P)) 800;
              needle = toLowerCase (trim raw)
          in (limit \<le> int (length P) \<longrightarrow> searchFuzzy toLowerCase ps raw limit = P)
           \<and> (int (length P) < limit \<longrightarrow>
                 searchFuzzy toLowerCase ps raw limit = P @ F
               \<and> F = (if needle = [] then []
                      else take (nat (limit - int (length P)))
                             (filter (\<lambda>r. includes_js (plc_of toLowerCase r) needle)
                                (take 800 (by_path_lc ps))))
               \<and> snd (substrScan toLowerCase needle (limit - int (length P)) 800
                         (by_path_lc ps) [] 0) \<le> 800)
           \<and> (1 \<le> limit \<longrightarrow> length (searchFuzzy toLowerCase ps raw limit) \<le> nat limit))
     \<and> searchFuzzy asciiLower [page ''/product''] (js ''prod'') 5
         = [page ''/product'', page ''/product'']"
proof -
  let ?P = "searchByPathPrefixLC toLowerCase ps raw limit"
  let ?F = "searchBySubstringLC toLowerCase ps raw (limit - int (length ?P)) 800"
  have a: "limit \<le> int (length ?P) \<longrightarrow> searchFuzzy toLowerCase ps raw limit = ?P"
    using assms by (simp add: searchFuzzy_cases)
  have b: "int (length ?P) < limit \<longrightarrow> searchFuzzy toLowerCase ps raw limit = ?P @ ?F"
    using assms by (simp add: searchFuzzy_cases)
  have c: "int (length ?P) < limit \<longrightarrow>
      ?F = (if toLowerCase (trim raw) = [] then []
            else take (nat (limit - int (length ?P)))
                   (filter (\<lambda>r. includes_js (plc_of toLowerCase r) (toLowerCase (trim raw)))
                      (take 800 (by_path_lc ps))))"
    by (simp add: searchBySubstringLC_take)
  have d: "snd (substrScan toLowerCase (toLowerCase (trim raw)) (limit - int (length ?P)) 800
                 (by_path_lc ps) [] 0) \<le> 800"
    by (rule substrScan_snd) simp
  have e: "1 \<le> limit \<longrightarrow> length (searchFuzzy toLowerCase ps raw limit) \<le> nat limit"
    by (simp add: searchFuzzy_length)
  have f: "searchFuzzy asciiLower [page ''/product''] (js ''prod'') 5
         = [page ''/product'', page ''/product'']"
    by code_simp
  from a b c d e f show ?thesis unfolding Let_def by blast
qed

text \<open>
  Scenario D: the query \<open>prod\<close> with limit 5 returns the two prefix matches, then the
  three records of the substring scan, \<open>/about-production\<close> first.
\<close>

theorem searchFuzzy_prefix_then_substring_witness:
  "trim (js ''prod'') \<noteq> []
   \<and> searchByPathPrefixLC asciiLower scenarioD (js ''prod'') 5
       = [page ''/product'', page ''/products/a'']
   \<and> searchFuzzy asciiLower scenarioD (js ''prod'') 5
       = [page ''/product'', page ''/products/a'']
         @ searchBySubstringLC asciiLower scenarioD (js ''prod'') 3 800
   \<and> searchBySubstringLC asciiLower scenarioD (js ''prod'') 3 800
       = [page ''/about-production'', page ''/product'', page ''/products/a'']"
proof -
  have h: "trim (js ''prod'') \<noteq> []" by code_simp
  have p: "searchByPathPrefixLC asciiLower scenarioD (js ''prod'') 5
       = [page ''/product'', page ''/products/a'']" by code_simp
  have s: "searchBySubstringLC asciiLower scenarioD (js ''prod'') 3 800
       = [page ''/about-production'', page ''/product'', page ''/products/a'']" by code_simp
  from searchFuzzy_prefix_then_substring[OF h, of asciiLower scenarioD 5] h p s
  show ?thesis by (simp add: Let_def)
qed

text \<open>
  Claim C3 as stated, for every query, fails: for the query of one space the prefix search
  returns all three records of the store, and \<open>searchFuzzy\<close> returns none.
\<close>

theorem searchFuzzy_whitespace_counterexample:
  "searchFuzzy asciiLower scenarioC (js '' '') 5
     \<noteq> searchByPathPrefixLC asciiLower scenarioC (js '' '') 5
       @ searchBySubstringLC asciiLower scenarioC (js '' '')
           (5 - int (length (searchByPathPrefixLC asciiLower scenarioC (js '' '') 5))) 800"
  by code_simp

text \<open>
  Three records in chunks of 2, one of them supplied with a wrong source, path and lowercase
  path: the store holds the derived fields.
\<close>

theorem putPagesBulk_derived_witness:
  "putPagesBulk asciiLower noURL 3 (js ''https://example.com/sitemap.xml'') suppliedRecords 2 []
     = Some [page ''/about'', page ''/product'', page ''/products/a'']
   \<and> (\<exists>s. s \<in> set [page ''/about'', page ''/product'', page ''/products/a'']
          \<and> loc s = js ''/product'' \<and> path s = Some (pathFromLoc noURL (js ''/product''))
          \<and> path_lc s = Some (asciiLower (pathFromLoc noURL (js ''/product''))))"
proof -
  have h: "1 \<le> (2::int) \<and> length suppliedRecords \<le> 3" by code_simp
  have e: "putPagesBulk asciiLower noURL 3 (js ''https://example.com/sitemap.xml'')
      suppliedRecords 2 [] = Some [page ''/about'', page ''/product'', page ''/products/a'']"
    by code_simp
  have m: "\<lparr>loc = js ''/product'', sourceUrl = js ''other'', lastmod = None,
        path = Some (js ''/wrong''), path_lc = Some (js ''/WRONG'')\<rparr> \<in> set suppliedRecords"
    by (simp add: suppliedRecords_def)
  have "\<exists>ps'. putPagesBulk asciiLower noURL 3 (js ''https://example.com/sitemap.xml'')
            suppliedRecords 2 [] = Some ps'
      \<and> (\<forall>r\<in>set suppliedRecords. \<exists>s\<in>set ps'. loc s = loc r
            \<and> path s = Some (pathFromLoc noURL (loc r))
            \<and> path_lc s = Some (asciiLower (pathFromLoc noURL (loc r))))"
    using putPagesBulk_derived[of asciiLower noURL "js ''https://example.com/sitemap.xml''"
      suppliedRecords 2 3 "[]"] h by blast
  then have "\<forall>r\<in>set suppliedRecords.
      \<exists>s\<in>set [page ''/about'', page ''/product'', page ''/products/a'']. loc s = loc r
        \<and> path s = Some (pathFromLoc noURL (loc r))
        \<and> path_lc s = Some (asciiLower (pathFromLoc noURL (loc r)))"
    unfolding e by (elim exE conjE) (simp only: option.inject)
  from bspec[OF this m] e show ?thesis by (simp only: PageRecord.simps) blast
qed

section \<open>Properties of the route\<close>

lemma dedupeCap_take:
  "length urls < 500 \<Longrightarrow>
   dedupeCap es seen urls =
     urls @ take (500 - length urls) (firstByLoc (filter (\<lambda>e. entry_loc e \<notin> seen) es))"
proof (induction es arbitrary: seen urls)
  case Nil
  show ?case by simp
next
  case (Cons e es)
  show ?case
  proof (cases "entry_loc e \<in> seen")
    case True
    with Cons show ?thesis by simp
  next
    case False
    have f: "filter (\<lambda>x. entry_loc x \<noteq> entry_loc e) (filter (\<lambda>x. entry_loc x \<notin> seen) es)
        = filter (\<lambda>x. entry_loc x \<notin> insert (entry_loc e) seen) es"
      by (auto intro: filter_cong)
    have r: "firstByLoc (filter (\<lambda>x. entry_loc x \<notin> seen) (e # es))
        = e # firstByLoc (filter (\<lambda>x. entry_loc x \<notin> insert (entry_loc e) seen) es)"
      using False f by simp
    show ?thesis
    proof (cases "length urls = 499")
      case True
      with False show ?thesis by (simp only: r) simp
    next
      case n: False
      with Cons.prems have l: "length (urls @ [e]) < 500" by simp
      have t: "500 - length urls = Suc (500 - length (urls @ [e]))" using l by simp
      have "dedupeCap (e # es) seen urls = dedupeCap es (insert (entry_loc e) seen) (urls @ [e])"
        using False l by (simp add: Let_def)
      also have "\<dots> = (urls @ [e]) @ take (500 - length (urls @ [e]))
          (firstByLoc (filter (\<lambda>x. entry_loc x \<notin> insert (entry_loc e) seen) es))"
        by (rule Cons.IH[OF l])
      also have "\<dots> = urls @ take (500 - length urls)
          (firstByLoc (filter (\<lambda>x. entry_loc x \<notin> seen) (e # es)))"
        by (simp only: r t take_Suc_Cons append_assoc append_Cons append_Nil)
      finally show ?thesis .
    qed
  qed
qed

lemma POST_urls_firstByLoc: "POST_urls entries = take 500 (firstByLoc entries)"
  by (simp add: POST_urls_def dedupeCap_take)

lemma set_firstByLoc: "entry_loc ` set (firstByLoc es) = entry_loc ` set es"
proof (induction es rule: firstByLoc.induct)
  case 1
  show ?case by simp
next
  case (2 e es)
  then show ?case by auto
qed

lemma distinct_firstByLoc: "distinct (map entry_loc (firstByLoc es))"
proof (induction es rule: firstByLoc.induct)
  case 1
  show ?case by simp
next
  case (2 e es)
  have "entry_loc e \<notin> entry_loc ` set (firstByLoc (filter (\<lambda>x. entry_loc x \<noteq> entry_loc e) es))"
    unfolding set_firstByLoc by auto
  with 2 show ?case by simp
qed

lemma firstByLoc_distinct: "distinct (map entry_loc es) \<Longrightarrow> firstByLoc es = es"
proof (induction es)
  case Nil
  show ?case by simp
next
  case (Cons e es)
  from Cons.prems have "\<forall>x\<in>set es. entry_loc x \<noteq> entry_loc e"
    by (metis distinct.simps(2) image_eqI list.simps(9) set_map)
  then have "filter (\<lambda>x. entry_loc x \<noteq> entry_loc e) es = es"
    by (rule filter_True)
  with Cons show ?case by simp
qed

lemma set_writeChunk_subset:
  "set (writeChunk lc up src rs ps) \<subseteq> set ps \<union> stamp lc up src ` set rs"
proof (induction rs arbitrary: ps)
  case Nil
  show ?case by simp
next
  case (Cons r rs)
  have "set (writeChunk lc up src rs (store_put (stamp lc up src r) ps))
      \<subseteq> set (store_put (stamp lc up src r) ps) \<union> stamp lc up src ` set rs"
    by (rule Cons.IH)
  then show ?case by (auto simp: set_store_put)
qed

lemma set_js_slice: "set (js_slice xs i j) \<subseteq> set xs"
  unfolding js_slice_def Let_def by (meson set_take_subset set_drop_subset subset_trans)

lemma set_putLoop_subset:
  "set (snd (putLoop lc up src records c fuel (i, ps))) \<subseteq> set ps \<union> stamp lc up src ` set records"
proof (induction fuel arbitrary: i ps)
  case 0
  show ?case by simp
next
  case (Suc fuel)
  show ?case
  proof (cases "i < int (length records)")
    case True
    let ?ch = "js_slice records i (i + c)"
    let ?S = "stamp lc up src ` set records"
    have a: "set (snd (putLoop lc up src records c fuel (i + c, writeChunk lc up src ?ch ps)))
        \<subseteq> set (writeChunk lc up src ?ch ps) \<union> ?S"
      by (rule Suc.IH)
    have b: "set (writeChunk lc up src ?ch ps) \<subseteq> set ps \<union> stamp lc up src ` set ?ch"
      by (rule set_writeChunk_subset)
    have "stamp lc up src ` set ?ch \<subseteq> ?S"
      by (rule image_mono) (rule set_js_slice)
    with a b have "set (snd (putLoop lc up src records c fuel
        (i + c, writeChunk lc up src ?ch ps))) \<subseteq> set ps \<union> ?S"
      by blast
    moreover have "putLoop lc up src records c (Suc fuel) (i, ps)
        = putLoop lc up src records c fuel (i + c, writeChunk lc up src ?ch ps)"
      using True by simp
    ultimately show ?thesis by (simp only:)
  next
    case False
    then show ?thesis by simp
  qed
qed

lemma putPagesBulk_Some:
  assumes "1 \<le> c" "length records \<le> fuel"
  shows "\<exists>ps'. putPagesBulk lc up fuel src records c ps = Some ps'"
proof -
  have "covered lc up src (loc ` set (take (nat 0) records)) ps" by (simp add: covered_def)
  with assms have "int (length records) \<le> fst (putLoop lc up src records c fuel (0, ps))"
    using putLoop_complete[of c 0 records fuel lc up src ps] by simp
  then show ?thesis by (cases "putLoop lc up src records c fuel (0, ps)") (simp add: putPagesBulk_def)
qed

lemma putPagesBulk_new:
  assumes "putPagesBulk lc up fuel src records c ps = Some ps'"
  shows "set ps' - set ps \<subseteq> stamp lc up src ` set records"
proof -
  from assms have "ps' = snd (putLoop lc up src records c fuel (0, ps))"
    by (cases "putLoop lc up src records c fuel (0, ps)") (simp add: putPagesBulk_def split: if_splits)
  then show ?thesis using set_putLoop_subset[of lc up src records c fuel 0 ps] by blast
qed

lemma putPagesBulk_card:
  assumes "putPagesBulk lc up fuel src records c ps = Some ps'"
  shows "card (set ps' - set ps) \<le> length records"
proof -
  have "card (set ps' - set ps) \<le> card (stamp lc up src ` set records)"
    using putPagesBulk_new[OF assms] by (intro card_mono) simp_all
  also have "\<dots> \<le> card (set records)" by (rule card_image_le) simp
  also have "\<dots> \<le> length records" by (rule card_length)
  finally show ?thesis .
qed

section \<open>Properties of the run\<close>

lemma claim_fields:
  "claim s = (t, s') \<Longrightarrow>
     posted s' = posted s \<and> progress s' = progress s \<and> pages s' = pages s
     \<and> sources s' = sources s \<and> phase s' = phase s \<and> cancelled s' = cancelled s
     \<and> workers s' = workers s \<and> groups s' = groups s"
  by (auto simp: claim_def Let_def split: if_splits)


lemma spawn_fields:
  "posted (spawn n s) = posted s \<and> progress (spawn n s) = progress s
   \<and> pages (spawn n s) = pages s \<and> sources (spawn n s) = sources s
   \<and> phase (spawn n s) = phase s \<and> cancelled (spawn n s) = cancelled s
   \<and> groups (spawn n s) = groups s"
proof (induction n arbitrary: s)
  case 0
  show ?case by simp
next
  case (Suc n)
  obtain t s' where c: "claim s = (t, s')" by (cases "claim s")
  from claim_fields[OF c] Suc[of "s'\<lparr>workers := workers s' @ [t]\<rparr>"] c
  show ?case by simp
qed

lemma settle_fields:
  "posted (settle s) = posted s \<and> progress (settle s) = progress s
   \<and> pages (settle s) = pages s \<and> sources (settle s) = sources s
   \<and> workers (settle s) = workers s \<and> cancelled (settle s) = cancelled s
   \<and> groups (settle s) = groups s"
  by (simp add: settle_def)

lemma settle_phase:
  "phase (settle s) =
     (if phase s = Pool \<and> (\<forall>t\<in>set (workers s). t = Stopped)
      then (if cancelled s then Finished else Counting) else phase s)"
  by (simp add: settle_def list_all_iff)

lemma fail_fields:
  "progress (fail cfg msg s) = progress s \<and> pages (fail cfg msg s) = pages s
   \<and> sources (fail cfg msg s) = sources s \<and> workers (fail cfg msg s) = workers s
   \<and> phase (fail cfg msg s) = Finished \<and> cancelled (fail cfg msg s) = cancelled s
   \<and> groups (fail cfg msg s) = groups s"
  by (simp add: fail_def split: variant.splits)

lemma fail_posted:
  "posted (fail cfg msg s) = posted s \<or> (\<exists>m. posted (fail cfg msg s) = posted s @ [Error m])"
  by (simp add: fail_def split: variant.splits)

lemma progress_events_append [simp]:
  "progress_events (xs @ ys) = progress_events xs @ progress_events ys"
  by (simp add: progress_events_def)

lemma progress_events_fail [simp]:
  "progress_events (posted (fail cfg msg s)) = progress_events (posted s)"
  using fail_posted[of cfg msg s] by (auto simp: progress_events_def)

lemma exec_snoc: "exec cfg (evs @ [e]) s = step cfg e (exec cfg evs s)"
  by (simp add: exec_def)

lemma exec_Nil: "exec cfg [] s = s"
  by (simp add: exec_def)

lemma leP_refl: "leP p p" by (simp add: leP_def)

lemma leP_trans: "leP p q \<Longrightarrow> leP q r \<Longrightarrow> leP p r" by (auto simp: leP_def)

lemma inv6_start: "inv6 (start db)"
  by (simp add: inv6_def start_def progress_events_def)

lemma inv6_same:
  assumes "inv6 s" "progress_events (posted s') = progress_events (posted s)"
    "progress s' = progress s" "\<not> (case phase s' of Analyzing a \<Rightarrow> True | _ \<Rightarrow> False)"
  shows "inv6 s'"
  using assms by (simp add: inv6_def)

lemma inv6_step: "inv6 s \<Longrightarrow> inv6 (step cfg e s)"
proof (cases e)
  case Cancel
  assume "inv6 s"
  then show ?thesis unfolding Cancel
    by (auto simp: inv6_def abort_phase_def split: phase.splits)
next
  case (AnalyzeDone r t)
  assume i: "inv6 s"
  show ?thesis
  proof (cases "phase s")
    case (Analyzing a)
    with i have p: "posted s = []" by (simp add: inv6_def)
    show ?thesis
    proof (cases "outcome a r")
      case (Inl msg)
      with Analyzing AnalyzeDone i show ?thesis
        by (auto intro!: inv6_same[OF i] simp: fail_fields)
    next
      case (Inr inf)
      show ?thesis
      proof (cases inf)
        case Urlset
        with Inr Analyzing AnalyzeDone i show ?thesis
          by (auto simp: inv6_def progress_events_def split: variant.splits)
      next
        case (Index sitemaps count)
        show ?thesis
        proof (cases "chunk sitemaps (optGroupSize (cfg_options cfg))")
          case None
          with Index Inr Analyzing AnalyzeDone i show ?thesis
            by (auto simp: inv6_def)
        next
          case (Some gs)
          with Index Inr Analyzing AnalyzeDone p show ?thesis
            by (auto simp: inv6_def Let_def settle_fields spawn_fields settle_phase leP_refl
                  progress_events_def split: variant.splits)
        qed
      qed
    qed
  qed (use i AnalyzeDone in auto)
next
  case (UrlsDone k r)
  assume i: "inv6 s"
  show ?thesis
  proof (cases "k < length (workers s)")
    case False
    with i UrlsDone show ?thesis by simp
  next
    case True
    show ?thesis
    proof (cases "workers s ! k")
      case (Fetching idx a)
      show ?thesis
      proof (cases "outcome a r")
        case (Inl msg)
        with Fetching True UrlsDone i show ?thesis
          by (auto simp: inv6_def Let_def fail_fields)
      next
        case (Inr urls)
        with Fetching True UrlsDone i show ?thesis
          by (auto simp: inv6_def)
      qed
    qed (use i True UrlsDone in auto)
  qed
next
  case (PagesWritten k)
  assume i: "inv6 s"
  show ?thesis
  proof (cases "k < length (workers s)")
    case False
    with i PagesWritten show ?thesis by simp
  next
    case True
    show ?thesis
    proof (cases "workers s ! k")
      case (Writing idx urls)
      show ?thesis
      proof (cases "writePages cfg urls (pages s)")
        case None
        with Writing True PagesWritten i show ?thesis by simp
      next
        case (Some ps)
        let ?p = "(progress s)\<lparr>urlsImported := urlsImported (progress s) + int (length urls),
            processedSitemaps := processedSitemaps (progress s) + int (length (groups s ! idx))\<rparr>"
        let ?s1 = "s\<lparr>pages := ps, progress := ?p,
            posted := posted s @
              [Batch (js_slice urls 0 (optSamplePerBatch (cfg_options cfg))), Progress ?p]\<rparr>"
        obtain t s2 where c: "claim ?s1 = (t, s2)" by (cases "claim ?s1")
        have st: "step cfg e s = settle (s2\<lparr>workers := (workers s2)[k := t]\<rparr>)"
          using Writing True PagesWritten Some c by (simp add: Let_def)
        have le: "leP (progress s) ?p" by (simp add: leP_def)
        have ph: "\<not> (case phase s of Analyzing a \<Rightarrow> True | _ \<Rightarrow> False)"
          using i True by (auto simp: inv6_def split: phase.splits)
        have i1: "inv6 ?s1"
          using i le ph
          by (auto simp: inv6_def progress_events_def sorted_wrt_append list_all_iff leP_refl
                intro: leP_trans split: phase.splits)
        have "inv6 (settle (s2\<lparr>workers := (workers s2)[k := t]\<rparr>))"
          using i1 claim_fields[OF c] ph
          by (auto simp: inv6_def settle_fields settle_phase split: phase.splits)
        with st show ?thesis by simp
      qed
    qed (use i True PagesWritten in auto)
  qed
next
  case (SitemapDone r)
  assume i: "inv6 s"
  then show ?thesis unfolding SitemapDone
    by (auto simp: inv6_def fail_fields split: phase.splits sum.splits)
next
  case DirectWritten
  assume i: "inv6 s"
  then show ?thesis unfolding DirectWritten
    by (auto simp: inv6_def split: phase.splits option.splits)
next
  case (Counted t1 t2)
  assume i: "inv6 s"
  then show ?thesis unfolding Counted
    by (auto simp: inv6_def split: phase.splits)
next
  case SourceWritten
  assume i: "inv6 s"
  then show ?thesis unfolding SourceWritten
    by (auto simp: inv6_def progress_events_def split: phase.splits)
qed

lemma progress_step_mono:
  assumes i: "inv6 s"
  shows "leP (progress s) (progress (step cfg e s))"
proof (cases e)
  case Cancel
  then show ?thesis by (simp add: leP_def)
next
  case (AnalyzeDone r t)
  show ?thesis
  proof (cases "phase s")
    case (Analyzing a)
    with i have "processedSitemaps (progress s) = 0" "urlsImported (progress s) = 0"
      by (simp_all add: inv6_def)
    with Analyzing AnalyzeDone show ?thesis
      by (auto simp: leP_def Let_def fail_fields settle_fields spawn_fields
            split: sum.splits info.splits variant.splits option.splits)
  qed (use AnalyzeDone in \<open>auto simp: leP_def\<close>)
next
  case (UrlsDone k r)
  then show ?thesis
    by (auto simp: leP_def Let_def fail_fields split: task.splits sum.splits)
next
  case (PagesWritten k)
  show ?thesis
  proof (cases "k < length (workers s)")
    case False
    with PagesWritten show ?thesis by (simp add: leP_def)
  next
    case True
    show ?thesis
    proof (cases "workers s ! k")
      case (Writing idx urls)
      show ?thesis
      proof (cases "writePages cfg urls (pages s)")
        case None
        with Writing True PagesWritten show ?thesis by (simp add: leP_def)
      next
        case (Some ps)
        let ?p = "(progress s)\<lparr>urlsImported := urlsImported (progress s) + int (length urls),
            processedSitemaps := processedSitemaps (progress s) + int (length (groups s ! idx))\<rparr>"
        let ?s1 = "s\<lparr>pages := ps, progress := ?p,
            posted := posted s @
              [Batch (js_slice urls 0 (optSamplePerBatch (cfg_options cfg))), Progress ?p]\<rparr>"
        obtain t s2 where cl: "claim ?s1 = (t, s2)" by (cases "claim ?s1")
        have "step cfg e s = settle (s2\<lparr>workers := (workers s2)[k := t]\<rparr>)"
          using Writing True PagesWritten Some cl by (simp add: Let_def)
        then show ?thesis using claim_fields[OF cl] by (simp add: settle_fields leP_def)
      qed
    qed (use True PagesWritten in \<open>auto simp: leP_def\<close>)
  qed
next
  case (SitemapDone r)
  then show ?thesis by (auto simp: leP_def fail_fields split: phase.splits sum.splits)
next
  case DirectWritten
  then show ?thesis by (auto simp: leP_def split: phase.splits option.splits)
next
  case (Counted t1 t2)
  then show ?thesis by (auto simp: leP_def split: phase.splits)
next
  case SourceWritten
  then show ?thesis by (auto simp: leP_def split: phase.splits)
qed

lemma inv6_exec: "inv6 (exec cfg evs (start db))"
  by (induction evs rule: rev_induct) (simp_all add: exec_Nil exec_snoc inv6_start inv6_step)



















lemma distinct_manyEntries: "distinct (map entry_loc manyEntries)"
proof -
  have "inj_on (\<lambda>i. [of_nat i :: jschar]) (set [0..<501])"
  proof (rule inj_onI)
    fix i j assume a: "i \<in> set [0..<501]" "j \<in> set [0..<501]" "[of_nat i :: jschar] = [of_nat j]"
    then have "unat (of_nat i :: jschar) = unat (of_nat j :: jschar)" by simp
    moreover have "i < 2 ^ 16" "j < 2 ^ 16" using a by auto
    ultimately show "i = j" by (simp add: unat_of_nat)
  qed
  then have "distinct (map (\<lambda>i. [of_nat i :: jschar]) [0..<501])"
    by (simp add: distinct_map)
  then show ?thesis by (simp add: manyEntries_def comp_def)
qed

lemma length_POST_manyEntries: "length manyEntries = 501 \<and> length (POST_urls manyEntries) = 500"
  by (simp add: POST_urls_firstByLoc firstByLoc_distinct[OF distinct_manyEntries])
     (simp add: manyEntries_def)

text \<open>
  Claim C6. In every run, of the worker or of the library, under every schedule of
  responses, failures and cancellation, the progress messages posted are ordered: in each
  pair of them \<open>processedSitemaps\<close> and \<open>urlsImported\<close> of the later are not
  below those of the earlier, and none exceeds the counters of the state, which no step of
  the run decreases. In the run over two groups the two progress messages read 1, 2 and
  then 2, 3.
\<close>

theorem progress_events_monotone:
  "sorted_wrt
     (\<lambda>p q. processedSitemaps p \<le> processedSitemaps q \<and> urlsImported p \<le> urlsImported q)
     (progress_events (posted (exec cfg evs (start db))))
   \<and> list_all
       (\<lambda>p. processedSitemaps p \<le> processedSitemaps (progress (exec cfg evs (start db)))
            \<and> urlsImported p \<le> urlsImported (progress (exec cfg evs (start db))))
       (progress_events (posted (exec cfg evs (start db))))
   \<and> processedSitemaps (progress (exec cfg evs (start db)))
       \<le> processedSitemaps (progress (exec cfg (evs @ [e]) (start db)))
   \<and> urlsImported (progress (exec cfg evs (start db)))
       \<le> urlsImported (progress (exec cfg (evs @ [e]) (start db)))
   \<and> progress_events (posted (exec (exampleConfig Worker (Some 1) None) twoGroups (start emptyDB)))
       = [\<lparr>totalSitemaps = 2, processedSitemaps = 1, urlsImported = 2, startedAt = 5\<rparr>,
          \<lparr>totalSitemaps = 2, processedSitemaps = 2, urlsImported = 3, startedAt = 5\<rparr>]"
proof -
  have i: "inv6 (exec cfg evs (start db))" by (rule inv6_exec)
  then have "sorted_wrt leP (progress_events (posted (exec cfg evs (start db))))"
    and "list_all (\<lambda>p. leP p (progress (exec cfg evs (start db))))
           (progress_events (posted (exec cfg evs (start db))))"
    by (simp_all add: inv6_def)
  moreover have "leP (progress (exec cfg evs (start db)))
      (progress (exec cfg (evs @ [e]) (start db)))"
    unfolding exec_snoc using i by (rule progress_step_mono)
  moreover have "progress_events (posted (exec (exampleConfig Worker (Some 1) None) twoGroups
        (start emptyDB)))
      = [\<lparr>totalSitemaps = 2, processedSitemaps = 1, urlsImported = 2, startedAt = 5\<rparr>,
         \<lparr>totalSitemaps = 2, processedSitemaps = 2, urlsImported = 3, startedAt = 5\<rparr>]"
    by code_simp
  ultimately show ?thesis unfolding leP_def by blast
qed



section \<open>Properties of the freshness manager and the claims on the run\<close>

lemma importAndCache_settles:
  "\<exists>x db'. importAndCache lc up response t1 t2 u ttl n db = (Some x, db')"
proof (cases response)
  case (Inl msg)
  then show ?thesis by (simp add: importAndCache_def)
next
  case (Inr list)
  obtain ps where "putPagesBulk lc up (length (toRecords u list)) u (toRecords u list) 2000 (pages db)
      = Some ps"
    using putPagesBulk_Some[of 2000 "toRecords u list" "length (toRecords u list)" lc up u
        "pages db"] by auto
  with Inr show ?thesis by (simp add: importAndCache_def Let_def)
qed





lemma fail_Library_cancelled:
  "cfg_variant cfg = Library \<Longrightarrow> cancelled s \<Longrightarrow> posted (fail cfg msg s) = posted s"
  by (simp add: fail_def)

lemma library_silent_when_cancelled:
  assumes v: "cfg_variant cfg = Library" and c: "cancelled s"
  shows "filter isError (posted (step cfg e s)) = filter isError (posted s)"
proof (cases e)
  case Cancel
  then show ?thesis by simp
next
  case (AnalyzeDone r t)
  show ?thesis
  proof (cases "phase s")
    case (Analyzing a)
    show ?thesis
    proof (cases "outcome a r")
      case (Inl msg)
      with Analyzing AnalyzeDone v c show ?thesis by (simp add: fail_Library_cancelled)
    next
      case (Inr inf)
      with Analyzing AnalyzeDone v c show ?thesis
        by (cases inf)
           (auto simp: Let_def settle_fields spawn_fields split: option.splits)
    qed
  qed (use AnalyzeDone in auto)
next
  case (UrlsDone k r)
  with v c show ?thesis
    by (auto simp: Let_def fail_Library_cancelled split: task.splits sum.splits)
next
  case (PagesWritten k)
  show ?thesis
  proof (cases "k < length (workers s)")
    case False
    with PagesWritten show ?thesis by simp
  next
    case True
    show ?thesis
    proof (cases "workers s ! k")
      case (Writing idx urls)
      show ?thesis
      proof (cases "writePages cfg urls (pages s)")
        case None
        with Writing True PagesWritten show ?thesis by simp
      next
        case (Some ps)
        let ?p = "(progress s)\<lparr>urlsImported := urlsImported (progress s) + int (length urls),
            processedSitemaps := processedSitemaps (progress s) + int (length (groups s ! idx))\<rparr>"
        let ?s1 = "s\<lparr>pages := ps, progress := ?p,
            posted := posted s @
              [Batch (js_slice urls 0 (optSamplePerBatch (cfg_options cfg))), Progress ?p]\<rparr>"
        obtain t s2 where cl: "claim ?s1 = (t, s2)" by (cases "claim ?s1")
        have "step cfg e s = settle (s2\<lparr>workers := (workers s2)[k := t]\<rparr>)"
          using Writing True PagesWritten Some cl by (simp add: Let_def)
        then show ?thesis using claim_fields[OF cl] by (simp add: settle_fields)
      qed
    qed (use True PagesWritten in auto)
  qed
next
  case (SitemapDone r)
  with v c show ?thesis
    by (auto simp: fail_Library_cancelled split: phase.splits sum.splits)
next
  case DirectWritten
  then show ?thesis by (auto split: phase.splits option.splits)
next
  case (Counted t1 t2)
  then show ?thesis by (auto split: phase.splits)
next
  case SourceWritten
  then show ?thesis by (auto split: phase.splits)
qed

lemma worker_posts_error_for_aborted_group:
  assumes "cfg_variant cfg = Worker" "phase s = Pool" "k < length (workers s)"
    "workers s ! k = Fetching i a"
  shows "posted (step cfg (UrlsDone k r) (step cfg Cancel s)) = posted s @ [Error abortError]"
  using assms
  by (simp add: abort_phase_def abort_task_def outcome_def fail_def abortError_def js_def)

text \<open>
  Claim C1 says that no \<open>complete\<close> and no \<open>error\<close> message follows an observed
  cancellation. The worker breaks it. A cancel message that arrives while a request is in
  flight sets the flag and aborts the request; the rejection reaches the \<open>catch\<close> of
  \<open>run\<close>, which posts an \<open>error\<close> message without consulting the flag. This holds
  on the index path (the request for a group) and on the urlset path (the direct request),
  whatever the response would have been. The library's \<open>importLargeSitemapIndex\<close>
  consults the flag in its \<open>catch\<close> and stays silent under the same schedules.
\<close>

theorem worker_error_after_cancel:
  "cancelled (exec (exampleConfig Worker None None)
       [AnalyzeDone (Inr (Index [js ''a.xml''] None)) 5, Cancel] (start emptyDB))
   \<and> posted (exec (exampleConfig Worker None None)
       [AnalyzeDone (Inr (Index [js ''a.xml''] None)) 5, Cancel] (start emptyDB))
     = [Start (zeroProgress 1 5)]
   \<and> posted (exec (exampleConfig Worker None None)
       [AnalyzeDone (Inr (Index [js ''a.xml''] None)) 5, Cancel, UrlsDone 0 r] (start emptyDB))
     = [Start (zeroProgress 1 5), Error abortError]
   \<and> posted (exec (exampleConfig Library None None)
       [AnalyzeDone (Inr (Index [js ''a.xml''] None)) 5, Cancel, UrlsDone 0 r] (start emptyDB))
     = [Start (zeroProgress 1 5), Progress (zeroProgress 1 5)]
   \<and> posted (exec (exampleConfig Worker None None)
       [AnalyzeDone (Inr Urlset) 5, Cancel, SitemapDone r] (start emptyDB))
     = [Start (zeroProgress 1 5), Error abortError]
   \<and> posted (exec (exampleConfig Library None None)
       [AnalyzeDone (Inr Urlset) 5, Cancel, SitemapDone r] (start emptyDB))
     = []"
  by (simp add: exec_def exampleConfig_def start_def emptyDB_def zeroProgress_def chunk_def
        optGroupSize_def optConcurrency_def js_slice_def Let_def claim_def settle_def
        abort_phase_def abort_task_def outcome_def fail_def abortError_def js_def
        numeral_2_eq_2)

text \<open>
  Claim C8. \<open>refreshIfExpired\<close> starts the import in the background exactly when the
  store holds metadata for the url and the current time is past its \<open>expiresAt\<close>. The
  promise of the call resolves in every case. When the import succeeds, \<open>onUpdated\<close> (if
  given) is called once, with its result; when it fails, \<open>onUpdated\<close> is not called and
  the failure goes nowhere.
\<close>

theorem refreshIfExpired_background:
  "(let out = refreshIfExpired toLowerCase parseURL now response t1 t2 u onUpdated ttl db;
        imp = importAndCache toLowerCase parseURL response t1 t2 u ttl 200 db
    in (triggered out \<longleftrightarrow> (\<exists>m. getSource (sources db) u = Some m \<and> expiresAt m < now))
     \<and> settled out = Inr ()
     \<and> (triggered out \<longrightarrow> background out = fst imp \<and> background out \<noteq> None
           \<and> after out = snd imp)
     \<and> (\<not> triggered out \<longrightarrow> background out = None \<and> updated out = [] \<and> after out = db)
     \<and> (\<forall>r. background out = Some (Inr r) \<longrightarrow> updated out = (if onUpdated then [r] else []))
     \<and> (\<forall>e. background out = Some (Inl e) \<longrightarrow> updated out = []))"
proof -
  obtain x db' where i: "importAndCache toLowerCase parseURL response t1 t2 u ttl 200 db
      = (Some x, db')"
    using importAndCache_settles by blast
  show ?thesis
  proof (cases "getSource (sources db) u")
    case None
    then show ?thesis by (simp add: refreshIfExpired_def Let_def)
  next
    case (Some m)
    show ?thesis
    proof (cases "expiresAt m < now")
      case False
      with Some show ?thesis by (simp add: refreshIfExpired_def Let_def)
    next
      case True
      with Some i show ?thesis
        by (cases x) (simp_all add: refreshIfExpired_def Let_def)
    qed
  qed
qed

text \<open>
  On a store whose metadata expired at 100: at time 101 a failing import is started and
  swallowed, a succeeding one reaches \<open>onUpdated\<close>; at time 100 none is started.
\<close>

theorem refreshIfExpired_background_witness:
  "triggered (refreshIfExpired asciiLower noURL 101 (Inl (js ''Failed to import'')) 101 101
      exampleUrl True 1000 staleDB)
   \<and> settled (refreshIfExpired asciiLower noURL 101 (Inl (js ''Failed to import'')) 101 101
      exampleUrl True 1000 staleDB) = Inr ()
   \<and> background (refreshIfExpired asciiLower noURL 101 (Inl (js ''Failed to import'')) 101 101
      exampleUrl True 1000 staleDB) = Some (Inl (js ''Failed to import''))
   \<and> updated (refreshIfExpired asciiLower noURL 101 (Inl (js ''Failed to import'')) 101 101
      exampleUrl True 1000 staleDB) = []
   \<and> map meta (updated (refreshIfExpired asciiLower noURL 101 (Inr [entry ''/a'']) 101 102
      exampleUrl True 1000 staleDB))
      = [\<lparr>url = exampleUrl, lastFetched = 101, expiresAt = 1102, total = 1\<rparr>]
   \<and> \<not> triggered (refreshIfExpired asciiLower noURL 100 (Inr [entry ''/a'']) 100 100
      exampleUrl True 1000 staleDB)"
proof -
  have g: "getSource (sources staleDB) exampleUrl
      = Some \<lparr>url = exampleUrl, lastFetched = 0, expiresAt = 100, total = 0\<rparr>"
    by (simp add: staleDB_def getSource_def)
  have f: "fst (importAndCache asciiLower noURL (Inl (js ''Failed to import'')) 101 101
      exampleUrl 1000 200 staleDB) = Some (Inl (js ''Failed to import''))"
    by (simp add: importAndCache_def)
  have s: "map meta (updated (refreshIfExpired asciiLower noURL 101 (Inr [entry ''/a'']) 101 102
      exampleUrl True 1000 staleDB))
      = [\<lparr>url = exampleUrl, lastFetched = 101, expiresAt = 1102, total = 1\<rparr>]"
    by code_simp
  from refreshIfExpired_background[of asciiLower noURL 101 "Inl (js ''Failed to import'')" 101 101
      exampleUrl True 1000 staleDB]
    refreshIfExpired_background[of asciiLower noURL 100 "Inr [entry ''/a'']" 100 100
      exampleUrl True 1000 staleDB] g f s
  show ?thesis by (simp add: Let_def)
qed

lemma writePages_Some: "\<exists>ps'. writePages cfg urls ps = Some ps'"
  unfolding writePages_def
  using putPagesBulk_Some[of 1000 "toRecords (cfg_url cfg) urls" "length urls"]
  by (simp add: toRecords_def)

lemma writePages_card:
  "writePages cfg urls ps = Some ps' \<Longrightarrow> card (set ps' - set ps) \<le> length urls"
  unfolding writePages_def using putPagesBulk_card by (fastforce simp: toRecords_def)

text \<open>
  Claim C10. The route returns the entries deduplicated by \<open>loc\<close>, the first occurrence
  kept in document order, cut after 500: at most 500 entries with distinct locations. A
  direct urlset run that receives them changes or adds at most 500 records of the store. A
  document of 501 distinct locations yields 500.
\<close>

theorem sitemap_route_cap:
  "POST_urls entries = take 500 (firstByLoc entries)
   \<and> length (POST_urls entries) \<le> 500
   \<and> distinct (map entry_loc (POST_urls entries))
   \<and> (let s = exec cfg [AnalyzeDone (Inr Urlset) t, SitemapDone (Inr (POST_urls entries)),
                        DirectWritten] (start db)
      in phase s = DirectCounting (POST_urls entries)
         \<and> card (set (pages s) - set (pages db)) \<le> 500)
   \<and> length manyEntries = 501
   \<and> length (POST_urls manyEntries) = 500"
proof -
  have a: "POST_urls entries = take 500 (firstByLoc entries)" by (rule POST_urls_firstByLoc)
  then have b: "length (POST_urls entries) \<le> 500" by simp
  have "distinct (take 500 (map entry_loc (firstByLoc entries)))"
    using distinct_firstByLoc by (rule distinct_take)
  then have c: "distinct (map entry_loc (POST_urls entries))" by (simp add: a take_map)
  obtain ps where w: "writePages cfg (POST_urls entries) (pages db) = Some ps"
    using writePages_Some by blast
  from writePages_card[OF w] b have k: "card (set ps - set (pages db)) \<le> 500" by simp
  have d: "let s = exec cfg [AnalyzeDone (Inr Urlset) t, SitemapDone (Inr (POST_urls entries)),
                        DirectWritten] (start db)
      in phase s = DirectCounting (POST_urls entries)
         \<and> card (set (pages s) - set (pages db)) \<le> 500"
    using w k by (cases "cfg_variant cfg") (simp_all add: exec_def start_def outcome_def)
  from a b c d length_POST_manyEntries show ?thesis by blast
qed

end
